theory Spec2Isabelle
  imports Main "HOL-Library.Multiset" "HOL-Library.List_Lexorder" "HOL-Library.Sublist"
begin

section \<open>Broheim Mod Tracker: values, strings and built-ins\<close>

text \<open>
  The development embeds the pure core of \<^verbatim>\<open>Broheim_ModTracker.py\<close>: the manifest
  normalizer \<^verbatim>\<open>parse_mod_info\<close>, the statistics engine \<^verbatim>\<open>calculate_statistics\<close>, the plain
  serializer \<^verbatim>\<open>export_to_csv\<close>, the snapshot reader \<^verbatim>\<open>load_csv_for_comparison\<close> and the set
  computations of \<^verbatim>\<open>compare_exports\<close>.

  A Python \<^verbatim>\<open>str\<close> is a \<^typ>\<open>string\<close>; a \<^typ>\<open>char\<close> stands for a code point below 256.
\<close>

subsection \<open>Values loaded from the manifest\<close>

datatype error = AttributeError | KeyError | ValueError

text \<open>
  What \<^verbatim>\<open>yaml.safe_load\<close> hands over: null, booleans, integers, strings and mappings.
  A mapping is its list of items with pairwise different keys. Every other value (a float,
  a sequence, a timestamp) is \<open>YOther\<close>: the code only looks at its truth value and at its
  \<^verbatim>\<open>str()\<close>, which the constructor carries. The latter is a string, or the error that
  \<^verbatim>\<open>str()\<close> raises: \<^verbatim>\<open>ValueError\<close> for a sequence that holds an integer too long to be
  converted.
\<close>

datatype yaml =
    YNull
  | YBool bool
  | YInt int
  | YStr string
  | YMap "(yaml \<times> yaml) list"
  | YOther bool "error + string"

text \<open>\<^verbatim>\<open>d.get(k, default)\<close> on a dict, for a string key.\<close>

definition dict_get :: "(yaml \<times> yaml) list \<Rightarrow> string \<Rightarrow> yaml \<Rightarrow> yaml" where
  "dict_get d k dflt = (case map_of d (YStr k) of None \<Rightarrow> dflt | Some v \<Rightarrow> v)"

text \<open>
  \<^verbatim>\<open>v.get(k, default)\<close> on an arbitrary value: only a mapping has the method, every other
  value raises \<^verbatim>\<open>AttributeError\<close>.
\<close>

definition value_get :: "yaml \<Rightarrow> string \<Rightarrow> yaml \<Rightarrow> error + yaml" where
  "value_get v k dflt = (case v of YMap d \<Rightarrow> Inr (dict_get d k dflt) | _ \<Rightarrow> Inl AttributeError)"

text \<open>The decimal notation of an integer: the characters \<^verbatim>\<open>str()\<close> produces when it returns.\<close>

definition digit_char :: "nat \<Rightarrow> char" where
  "digit_char d = char_of (48 + d)"

fun str_nat :: "nat \<Rightarrow> string" where
  "str_nat n = (if n < 10 then [digit_char n] else str_nat (n div 10) @ [digit_char (n mod 10)])"

declare str_nat.simps [simp del]

definition decimal :: "int \<Rightarrow> string" where
  "decimal i = (if i < 0 then CHR ''-'' # str_nat (nat (- i)) else str_nat (nat i))"

text \<open>
  The limit \<^verbatim>\<open>sys.get_int_max_str_digits()\<close> of CPython (3.11 and later, and the security
  releases of 3.7 to 3.10), at its default: the conversions between \<^verbatim>\<open>int\<close> and \<^verbatim>\<open>str\<close> in base
  ten raise \<^verbatim>\<open>ValueError\<close> when the number has more digits, the sign not counted.
\<close>

definition max_str_digits :: nat where
  "max_str_digits = 4300"

text \<open>\<^verbatim>\<open>str(i)\<close> on an integer.\<close>

definition str_int :: "int \<Rightarrow> error + string" where
  "str_int i =
    (if max_str_digits < length (str_nat (nat \<bar>i\<bar>)) then Inl ValueError else Inr (decimal i))"

text \<open>
  \<^verbatim>\<open>str(v)\<close>, as an f-string applies it. The rendering of a mapping is Python's own
  \<^verbatim>\<open>dict.__repr__\<close>, which raises when the rendering of an item does; it is the parameter
  \<open>dict_str\<close>.
\<close>

fun py_str :: "((yaml \<times> yaml) list \<Rightarrow> error + string) \<Rightarrow> yaml \<Rightarrow> error + string" where
  "py_str dict_str YNull = Inr ''None''"
| "py_str dict_str (YBool b) = Inr (if b then ''True'' else ''False'')"
| "py_str dict_str (YInt i) = str_int i"
| "py_str dict_str (YStr s) = Inr s"
| "py_str dict_str (YMap d) = dict_str d"
| "py_str dict_str (YOther t s) = s"

text \<open>Truth value of a value, as a conditional expression tests it.\<close>

fun truthy :: "yaml \<Rightarrow> bool" where
  "truthy YNull = False"
| "truthy (YBool b) = b"
| "truthy (YInt i) = (i \<noteq> 0)"
| "truthy (YStr s) = (s \<noteq> [])"
| "truthy (YMap d) = (d \<noteq> [])"
| "truthy (YOther t s) = t"

section \<open>Manifest normalizer\<close>

text \<open>
  The dictionary \<^verbatim>\<open>parse_mod_info\<close> returns. \<^verbatim>\<open>version\<close> and \<^verbatim>\<open>enabled\<close> are always strings;
  the other four fields hold whatever the manifest held, so their type is a parameter:
  \<^typ>\<open>yaml\<close> at the normalizer, \<^typ>\<open>string\<close> from there on.
\<close>

record 'v mod_info =
  name :: 'v
  author :: 'v
  version :: string
  description :: 'v
  enabled :: string
  website :: 'v

text \<open>
  The f-string evaluates and converts its three expressions from left to right; the first
  call or conversion that raises ends the function.
\<close>

definition parse_mod_info ::
  "((yaml \<times> yaml) list \<Rightarrow> error + string) \<Rightarrow> (yaml \<times> yaml) list \<Rightarrow> error + yaml mod_info" where
  "parse_mod_info dict_str raw =
    (let ver = dict_get raw ''versionNumber'' (YMap []) in
     case value_get ver ''major'' (YInt 0) of Inl e \<Rightarrow> Inl e | Inr major \<Rightarrow>
     case py_str dict_str major of Inl e \<Rightarrow> Inl e | Inr major_str \<Rightarrow>
     case value_get ver ''minor'' (YInt 0) of Inl e \<Rightarrow> Inl e | Inr minor \<Rightarrow>
     case py_str dict_str minor of Inl e \<Rightarrow> Inl e | Inr minor_str \<Rightarrow>
     case value_get ver ''patch'' (YInt 0) of Inl e \<Rightarrow> Inl e | Inr patch \<Rightarrow>
     case py_str dict_str patch of Inl e \<Rightarrow> Inl e | Inr patch_str \<Rightarrow>
     let version_str = major_str @ ''.'' @ minor_str @ ''.'' @ patch_str
     in Inr \<lparr> name = dict_get raw ''displayName'' (dict_get raw ''name'' (YStr ''Unknown'')),
              author = dict_get raw ''authorName'' (YStr ''Unknown''),
              version = version_str,
              description = dict_get raw ''description'' (YStr ''''),
              enabled = (if truthy (dict_get raw ''enabled'' (YBool False)) then ''Yes'' else ''No''),
              website = dict_get raw ''websiteUrl'' (YStr '''') \<rparr>)"


text \<open>
  The name rule in the words of the specification: the display name if present and
  non-null, else the internal name if present, else \<^verbatim>\<open>Unknown\<close>.
\<close>

definition name_rule_spec :: "(yaml \<times> yaml) list \<Rightarrow> yaml" where
  "name_rule_spec raw =
    (let fallback = (case map_of raw (YStr ''name'') of Some v \<Rightarrow> v | None \<Rightarrow> YStr ''Unknown'')
     in case map_of raw (YStr ''displayName'') of
          None \<Rightarrow> fallback
        | Some v \<Rightarrow> (if v = YNull then fallback else v))"

subsection \<open>Version strings\<close>

text \<open>\<^verbatim>\<open>s.split(sep)\<close> for a one-character separator.\<close>

fun split_on :: "char \<Rightarrow> string \<Rightarrow> string list" where
  "split_on sep [] = [[]]"
| "split_on sep (c # cs) =
    (if c = sep then [] # split_on sep cs
     else (c # hd (split_on sep cs)) # tl (split_on sep cs))"

definition is_digit :: "char \<Rightarrow> bool" where
  "is_digit c = (48 \<le> (of_char c :: nat) \<and> (of_char c :: nat) \<le> 57)"

text \<open>A non-negative integer in decimal notation.\<close>

definition is_decimal :: "string \<Rightarrow> bool" where
  "is_decimal s = (s \<noteq> [] \<and> list_all is_digit s)"

text \<open>The format \<^verbatim>\<open><major>.<minor>.<patch>\<close> of the data model.\<close>

definition is_version_string :: "string \<Rightarrow> bool" where
  "is_version_string s =
    (case split_on CHR ''.'' s of
       [a, b, c] \<Rightarrow> is_decimal a \<and> is_decimal b \<and> is_decimal c
     | _ \<Rightarrow> False)"



section \<open>Statistics engine\<close>

subsection \<open>Built-ins: whitespace, \<^verbatim>\<open>int()\<close>, sorting, \<^verbatim>\<open>Counter\<close>\<close>

text \<open>
  The characters \<^verbatim>\<open>str.strip()\<close> removes: tab to carriage return, the four separators
  \<^verbatim>\<open>\x1c\<close> to \<^verbatim>\<open>\x1f\<close>, the space, and \<^verbatim>\<open>\x85\<close> and \<^verbatim>\<open>\xa0\<close>. \<^verbatim>\<open>int()\<close> skips the same
  characters but the four separators.
\<close>

definition is_space :: "char \<Rightarrow> bool" where
  "is_space c = ((of_char c :: nat) \<in> {9, 10, 11, 12, 13, 28, 29, 30, 31, 32, 133, 160})"

definition is_int_space :: "char \<Rightarrow> bool" where
  "is_int_space c = ((of_char c :: nat) \<in> {9, 10, 11, 12, 13, 32, 133, 160})"

definition strip_chars :: "(char \<Rightarrow> bool) \<Rightarrow> string \<Rightarrow> string" where
  "strip_chars P s = rev (dropWhile P (rev (dropWhile P s)))"

definition py_strip :: "string \<Rightarrow> string" where
  "py_strip s = strip_chars is_space s"

definition digit_value :: "char \<Rightarrow> nat" where
  "digit_value c = of_char c - 48"

text \<open>
  \<^verbatim>\<open>int(s)\<close> on a string, base ten: surrounding whitespace is skipped, one sign is allowed,
  then come decimal digits, where single underscores may stand between two digits. There
  are at most \<^const>\<open>max_str_digits\<close> digits, leading zeros counted and underscores not.
  \<open>None\<close> is \<^verbatim>\<open>ValueError\<close>.
\<close>

fun int_digits :: "nat \<Rightarrow> string \<Rightarrow> nat option" where
  "int_digits acc [] = Some acc"
| "int_digits acc [c] = (if is_digit c then Some (10 * acc + digit_value c) else None)"
| "int_digits acc (c # d # ds) =
    (if is_digit c then int_digits (10 * acc + digit_value c) (d # ds)
     else if c = CHR ''_'' \<and> is_digit d then int_digits (10 * acc + digit_value d) ds
     else None)"

definition int_unsigned :: "string \<Rightarrow> nat option" where
  "int_unsigned s =
    (if max_str_digits < length (filter is_digit s) then None
     else case s of [] \<Rightarrow> None
          | c # cs \<Rightarrow> if is_digit c then int_digits (digit_value c) cs else None)"

definition py_int :: "string \<Rightarrow> int option" where
  "py_int s =
    (case strip_chars is_int_space s of
       [] \<Rightarrow> None
     | c # cs \<Rightarrow>
         if c = CHR ''-'' then map_option (\<lambda>n. - int n) (int_unsigned cs)
         else if c = CHR ''+'' then map_option int (int_unsigned cs)
         else map_option int (int_unsigned (c # cs)))"

text \<open>
  \<^verbatim>\<open>sorted(xs, key=key, reverse=True)\<close>. The sort is stable also when reversed: elements with
  equal keys keep the order they had in \<open>xs\<close>. (The list is reversed, sorted stably in
  ascending order and reversed again.) \<^const>\<open>sort_key\<close> is a stable ascending sort, and is
  \<^verbatim>\<open>sorted(xs, key=key)\<close>.
\<close>

definition sorted_reverse :: "('a \<Rightarrow> 'k::linorder) \<Rightarrow> 'a list \<Rightarrow> 'a list" where
  "sorted_reverse key xs = rev (sort_key key (rev xs))"

text \<open>
  A \<^verbatim>\<open>Counter\<close> is a dict: its items stand in the order in which the keys were first
  inserted.
\<close>

fun counter_add :: "'a \<Rightarrow> ('a \<times> nat) list \<Rightarrow> ('a \<times> nat) list" where
  "counter_add x [] = [(x, 1)]"
| "counter_add x ((k, c) # rest) =
    (if k = x then (k, c + 1) # rest else (k, c) # counter_add x rest)"

definition Counter :: "'a list \<Rightarrow> ('a \<times> nat) list" where
  "Counter xs = foldl (\<lambda>counts x. counter_add x counts) [] xs"

text \<open>
  \<^verbatim>\<open>most_common(n)\<close> is \<^verbatim>\<open>heapq.nlargest(n, items, key=itemgetter(1))\<close>, which is
  \<^verbatim>\<open>sorted(items, key=itemgetter(1), reverse=True)[:n]\<close>.
\<close>

definition most_common :: "nat \<Rightarrow> ('a \<times> nat) list \<Rightarrow> ('a \<times> nat) list" where
  "most_common n counts = take n (sorted_reverse snd counts)"

subsection \<open>\<^verbatim>\<open>calculate_statistics\<close>\<close>

text \<open>
  The inner function \<^verbatim>\<open>version_key\<close>. Its bare \<^verbatim>\<open>except\<close> catches the \<^verbatim>\<open>ValueError\<close> of any
  component that \<^verbatim>\<open>int()\<close> rejects; tuples of integers are lists of integers, compared
  lexicographically as Python compares tuples.
\<close>

definition version_key :: "'v mod_info \<Rightarrow> int list" where
  "version_key m =
    (let parts = split_on CHR ''.'' (version m) in
     case those (map py_int parts) of
       Some t \<Rightarrow> t
     | None \<Rightarrow> [0, 0, 0])"

record statistics =
  profile_name :: string
  export_date :: string
  total_mods :: int
  enabled_mods :: int
  disabled_mods :: int
  unique_authors :: int
  top_authors :: "(string \<times> nat) list"
  newest_mods :: "string mod_info list"
  oldest_mods :: "string mod_info list"

text \<open>
  From here on the records are canonical: name, author, description and website are
  strings. \<open>now\<close> is the formatted \<^verbatim>\<open>datetime.now()\<close>.
\<close>

definition calculate_statistics :: "string mod_info list \<Rightarrow> string \<Rightarrow> string \<Rightarrow> statistics" where
  "calculate_statistics mods_list profile now =
    (let total = int (length mods_list);
         enabled_count = int (length (filter (\<lambda>m. enabled m = ''Yes'') mods_list));
         author_counts = Counter (map author mods_list);
         sorted_by_version = sorted_reverse version_key mods_list
     in \<lparr> profile_name = profile,
          export_date = now,
          total_mods = total,
          enabled_mods = enabled_count,
          disabled_mods = total - enabled_count,
          unique_authors = int (length author_counts),
          top_authors = most_common 5 author_counts,
          newest_mods = take 5 sorted_by_version,
          oldest_mods = rev (drop (length sorted_by_version - 5) sorted_by_version) \<rparr>)"


text \<open>The position at which a value is first met in a sequence.\<close>

definition first_index :: "'a list \<Rightarrow> 'a \<Rightarrow> nat" where
  "first_index xs a = length (takeWhile (\<lambda>x. x \<noteq> a) xs)"

text \<open>
  The order of the ranking: a larger count first, and among equal counts the author met
  first in \<open>authors\<close>.
\<close>

definition ranks_before :: "string list \<Rightarrow> string \<times> nat \<Rightarrow> string \<times> nat \<Rightarrow> bool" where
  "ranks_before authors p q =
    (snd q < snd p \<or> (snd p = snd q \<and> first_index authors (fst p) < first_index authors (fst q)))"

text \<open>A canonical record with empty description and website, for concrete inputs.\<close>

definition example_mod :: "string \<Rightarrow> string \<Rightarrow> string \<Rightarrow> string \<Rightarrow> string mod_info" where
  "example_mod a n v e =
    \<lparr> name = n, author = a, version = v, description = '''', enabled = e, website = '''' \<rparr>"

section \<open>Snapshot files\<close>

subsection \<open>Text files\<close>

definition CR :: char where
  "CR = CHR 0x0D"

definition LF :: char where
  "LF = CHR 0x0A"

text \<open>
  Reading a file opened in text mode with the default \<^verbatim>\<open>newline=None\<close>: each of
  \<^verbatim>\<open>\r\n\<close> and \<^verbatim>\<open>\r\<close> arrives as \<^verbatim>\<open>\n\<close>.
\<close>

fun universal_newlines :: "string \<Rightarrow> string" where
  "universal_newlines [] = []"
| "universal_newlines [c] = (if c = CR then [LF] else [c])"
| "universal_newlines (c # d # cs) =
    (if c = CR then (if d = LF then LF # universal_newlines cs else LF # universal_newlines (d # cs))
     else c # universal_newlines (d # cs))"

text \<open>\<^verbatim>\<open>readlines()\<close>, and the iteration over a \<^verbatim>\<open>StringIO\<close>: every line keeps its \<^verbatim>\<open>\n\<close>.\<close>

fun readlines :: "string \<Rightarrow> string list" where
  "readlines [] = []"
| "readlines (c # cs) =
    (if c = LF then [c] # readlines cs
     else (case readlines cs of [] \<Rightarrow> [[c]] | l # ls \<Rightarrow> (c # l) # ls))"

subsection \<open>The \<^verbatim>\<open>csv\<close> writer\<close>

text \<open>
  \<^verbatim>\<open>csv.writer(f)\<close> with the default dialect: delimiter \<^verbatim>\<open>,\<close>, quote character \<^verbatim>\<open>"\<close>,
  \<^verbatim>\<open>QUOTE_MINIMAL\<close>, doubled quotes, line terminator \<^verbatim>\<open>\r\n\<close>. A field is quoted when it
  holds the delimiter, the quote character or a character of the line terminator; a row
  that is one empty field is written as \<^verbatim>\<open>""\<close>.
\<close>

definition needs_quotes :: "string \<Rightarrow> bool" where
  "needs_quotes s = list_ex (\<lambda>c. c = CHR '','' \<or> c = CHR ''\"'' \<or> c = CR \<or> c = LF) s"

definition double_quotes :: "string \<Rightarrow> string" where
  "double_quotes s = concat (map (\<lambda>c. if c = CHR ''\"'' then [c, c] else [c]) s)"

definition write_field :: "string \<Rightarrow> string" where
  "write_field s = (if needs_quotes s then CHR ''\"'' # double_quotes s @ [CHR ''\"''] else s)"

fun join :: "string \<Rightarrow> string list \<Rightarrow> string" where
  "join sep [] = []"
| "join sep [s] = s"
| "join sep (s # t # ts) = s @ sep @ join sep (t # ts)"

definition writerow :: "string list \<Rightarrow> string" where
  "writerow row =
    (if row = [[]] then [CHR ''\"'', CHR ''\"''] else join '','' (map write_field row)) @ [CR, LF]"

subsection \<open>\<^verbatim>\<open>export_to_csv\<close>\<close>

text \<open>
  The rows of the statistics section, which stand before the header row. The counts are
  numbers of records of a list in memory, far below the limit of \<^verbatim>\<open>str()\<close>: the writer and
  the f-string put their decimal notation.
\<close>

definition mod_line :: "string mod_info \<Rightarrow> string list" where
  "mod_line m = [name m, author m, version m]"

definition preamble_rows :: "statistics \<Rightarrow> string list list" where
  "preamble_rows stats =
    [[''PROFILE STATISTICS''],
     [''''],
     [''Profile Name:'', profile_name stats],
     [''Export Date:'', export_date stats],
     [''Total Mods:'', decimal (total_mods stats)],
     [''Enabled Mods:'', decimal (enabled_mods stats)],
     [''Disabled Mods:'', decimal (disabled_mods stats)],
     [''Unique Authors:'', decimal (unique_authors stats)],
     [''''],
     [''TOP AUTHORS (by mod count)'']] @
    map (\<lambda>(a, count). [a, str_nat count @ '' mods'']) (top_authors stats) @
    [[''''],
     [''NEWEST MODS (by version)''],
     [''Mod Name'', ''Author'', ''Version'']] @
    map mod_line (newest_mods stats) @
    [[''''],
     [''OLDEST MODS (by version)''],
     [''Mod Name'', ''Author'', ''Version'']] @
    map mod_line (oldest_mods stats) @
    [[''''],
     [''''],
     [''COMPLETE MOD LIST''],
     ['''']]"

definition headers :: "string list" where
  "headers = [''Author'', ''Mod Name'', ''Version'', ''Enabled'', ''Description'', ''Website'']"

definition mod_row :: "string mod_info \<Rightarrow> string list" where
  "mod_row m = [author m, name m, version m, enabled m, description m, website m]"

text \<open>
  The characters \<^verbatim>\<open>export_to_csv\<close> writes to the file, which is opened with \<^verbatim>\<open>newline=''\<close>
  and so stores them as they are.
\<close>

definition export_to_csv :: "string mod_info list \<Rightarrow> statistics \<Rightarrow> string" where
  "export_to_csv mods_list stats =
    concat (map writerow (preamble_rows stats @ [headers] @ map mod_row mods_list))"

subsection \<open>The \<^verbatim>\<open>csv\<close> reader\<close>

text \<open>
  The parser of \<^verbatim>\<open>csv.reader\<close> for the default dialect (no escape character, not strict).
  It is fed the characters of a line and then the end-of-line mark, here \<open>None\<close>.
\<close>

datatype csv_error = FieldLimit | NewlineInField

datatype parser_state =
  START_RECORD | START_FIELD | IN_FIELD | IN_QUOTED_FIELD | QUOTE_IN_QUOTED_FIELD | EAT_CRNL

record parser =
  state :: parser_state
  rec_fields :: "string list"
  cur_field :: string

definition field_limit :: nat where
  "field_limit = 131072"

definition parse_reset :: parser where
  "parse_reset = \<lparr> state = START_RECORD, rec_fields = [], cur_field = [] \<rparr>"

definition parse_save_field :: "parser \<Rightarrow> parser" where
  "parse_save_field p = p \<lparr> rec_fields := rec_fields p @ [cur_field p], cur_field := [] \<rparr>"

definition parse_add_char :: "parser \<Rightarrow> char \<Rightarrow> csv_error + parser" where
  "parse_add_char p c =
    (if field_limit \<le> length (cur_field p) then Inl FieldLimit
     else Inr (p \<lparr> cur_field := cur_field p @ [c] \<rparr>))"

definition end_of_field :: "parser \<Rightarrow> char option \<Rightarrow> parser" where
  "end_of_field p t =
    (parse_save_field p) \<lparr> state := (if t = None then START_RECORD else EAT_CRNL) \<rparr>"

definition is_newline :: "char option \<Rightarrow> bool" where
  "is_newline t = (t = Some LF \<or> t = Some CR)"

definition expect_field :: "parser \<Rightarrow> char option \<Rightarrow> csv_error + parser" where
  "expect_field p t =
    (if is_newline t \<or> t = None then Inr (end_of_field p t)
     else if t = Some (CHR ''\"'') then Inr (p \<lparr> state := IN_QUOTED_FIELD \<rparr>)
     else if t = Some (CHR '','') then Inr ((parse_save_field p) \<lparr> state := START_FIELD \<rparr>)
     else map_sum id (\<lambda>q. q \<lparr> state := IN_FIELD \<rparr>) (parse_add_char p (the t)))"

definition parse_process_char :: "parser \<Rightarrow> char option \<Rightarrow> csv_error + parser" where
  "parse_process_char p t =
    (case state p of
       START_RECORD \<Rightarrow>
         (if t = None then Inr p
          else if is_newline t then Inr (p \<lparr> state := EAT_CRNL \<rparr>)
          else expect_field p t)
     | START_FIELD \<Rightarrow> expect_field p t
     | IN_FIELD \<Rightarrow>
         (if is_newline t \<or> t = None then Inr (end_of_field p t)
          else if t = Some (CHR '','') then Inr ((parse_save_field p) \<lparr> state := START_FIELD \<rparr>)
          else parse_add_char p (the t))
     | IN_QUOTED_FIELD \<Rightarrow>
         (if t = None then Inr p
          else if t = Some (CHR ''\"'') then Inr (p \<lparr> state := QUOTE_IN_QUOTED_FIELD \<rparr>)
          else parse_add_char p (the t))
     | QUOTE_IN_QUOTED_FIELD \<Rightarrow>
         (if t = Some (CHR ''\"'')
          then map_sum id (\<lambda>q. q \<lparr> state := IN_QUOTED_FIELD \<rparr>) (parse_add_char p (the t))
          else if t = Some (CHR '','') then Inr ((parse_save_field p) \<lparr> state := START_FIELD \<rparr>)
          else if is_newline t \<or> t = None then Inr (end_of_field p t)
          else map_sum id (\<lambda>q. q \<lparr> state := IN_FIELD \<rparr>) (parse_add_char p (the t)))
     | EAT_CRNL \<Rightarrow>
         (if is_newline t then Inr p
          else if t = None then Inr (p \<lparr> state := START_RECORD \<rparr>)
          else Inl NewlineInField))"

fun feed :: "parser \<Rightarrow> char option list \<Rightarrow> csv_error + parser" where
  "feed p [] = Inr p"
| "feed p (t # ts) = (case parse_process_char p t of Inl e \<Rightarrow> Inl e | Inr q \<Rightarrow> feed q ts)"

definition process_line :: "parser \<Rightarrow> string \<Rightarrow> csv_error + parser" where
  "process_line p l = feed p (map Some l @ [None])"

text \<open>
  The rows the reader yields: it takes lines until the parser is back at the start of a
  record. When the input ends inside a quoted field the fields read so far are a last row.
\<close>

fun reader_rows :: "parser \<Rightarrow> string list \<Rightarrow> csv_error + string list list" where
  "reader_rows p [] =
    (if cur_field p \<noteq> [] \<or> state p = IN_QUOTED_FIELD then Inr [rec_fields (parse_save_field p)]
     else Inr [])"
| "reader_rows p (l # ls) =
    (case process_line p l of
       Inl e \<Rightarrow> Inl e
     | Inr q \<Rightarrow>
         if state q = START_RECORD
         then map_sum id (\<lambda>rows. rec_fields q # rows) (reader_rows parse_reset ls)
         else reader_rows q ls)"

definition csv_reader :: "string list \<Rightarrow> csv_error + string list list" where
  "csv_reader lines = reader_rows parse_reset lines"

subsection \<open>\<^verbatim>\<open>csv.DictReader\<close>\<close>

text \<open>A dict as the list of its items in insertion order; \<^verbatim>\<open>d[k] = v\<close>.\<close>

fun dict_set :: "'k \<Rightarrow> 'v \<Rightarrow> ('k \<times> 'v) list \<Rightarrow> ('k \<times> 'v) list" where
  "dict_set k v [] = [(k, v)]"
| "dict_set k v ((k', v') # d) = (if k' = k then (k', v) # d else (k', v') # dict_set k v d)"

text \<open>
  A row of a \<^verbatim>\<open>DictReader\<close>: under each field name a string, or \<open>None\<close> (the \<^verbatim>\<open>restval\<close>) where
  the line was too short; the surplus fields of a line that was too long are kept under
  the key \<^verbatim>\<open>None\<close> (the \<^verbatim>\<open>restkey\<close>).
\<close>

record row =
  cells :: "(string \<times> string option) list"
  rest_fields :: "string list option"

definition dict_row :: "string list \<Rightarrow> string list \<Rightarrow> row" where
  "dict_row fieldnames r =
    (let d = foldl (\<lambda>d (k, v). dict_set k (Some v) d) [] (zip fieldnames r);
         lf = length fieldnames;
         lr = length r
     in if lf < lr then \<lparr> cells = d, rest_fields = Some (drop lf r) \<rparr>
        else if lr < lf
        then \<lparr> cells = foldl (\<lambda>d k. dict_set k None d) d (drop lr fieldnames), rest_fields = None \<rparr>
        else \<lparr> cells = d, rest_fields = None \<rparr>)"

text \<open>The first row gives the field names; empty rows are skipped.\<close>

definition DictReader :: "string list \<Rightarrow> csv_error + row list" where
  "DictReader lines =
    (case csv_reader lines of
       Inl e \<Rightarrow> Inl e
     | Inr [] \<Rightarrow> Inr []
     | Inr (fieldnames # rows) \<Rightarrow> Inr (map (dict_row fieldnames) (filter (\<lambda>r. r \<noteq> []) rows)))"

subsection \<open>\<^verbatim>\<open>load_csv_for_comparison\<close>\<close>

definition header_prefix :: string where
  "header_prefix = ''Author,Mod Name,Version''"

text \<open>The index of the first line that, stripped, starts with the header prefix.\<close>

fun find_header :: "string list \<Rightarrow> nat option" where
  "find_header [] = None"
| "find_header (l # ls) =
    (if prefix header_prefix (py_strip l) then Some 0 else map_option Suc (find_header ls))"

text \<open>
  The body of the loop over the rows: a row whose \<^verbatim>\<open>Author\<close> or \<^verbatim>\<open>Mod Name\<close> is missing, \<open>None\<close>
  or empty is skipped.
\<close>

definition add_row :: "(string \<times> row) list \<Rightarrow> row \<Rightarrow> (string \<times> row) list" where
  "add_row mods r =
    (case (map_of (cells r) ''Author'', map_of (cells r) ''Mod Name'') of
       (Some (Some a), Some (Some n)) \<Rightarrow>
         if a \<noteq> [] \<and> n \<noteq> [] then dict_set (a @ '':'' @ n) r mods else mods
     | _ \<Rightarrow> mods)"

text \<open>
  The reader, on the name of the file and the characters stored in it. The result is what
  it prints and the mapping it returns.
\<close>

definition load_csv_for_comparison ::
  "string \<Rightarrow> string \<Rightarrow> csv_error + (string list \<times> (string \<times> row) list)" where
  "load_csv_for_comparison file_name content =
    (let lines = readlines (universal_newlines content) in
     case find_header lines of
       None \<Rightarrow> Inr ([''Warning: Could not find mod data header in '' @ file_name], [])
     | Some header_line_idx \<Rightarrow>
         (case DictReader (readlines (concat (drop header_line_idx lines))) of
            Inl e \<Rightarrow> Inl e
          | Inr rows \<Rightarrow> Inr ([], foldl add_row [] rows)))"

section \<open>Comparison engine\<close>

text \<open>\<^verbatim>\<open>r[k]\<close> on a row.\<close>

definition row_item :: "row \<Rightarrow> string \<Rightarrow> error + string option" where
  "row_item r k = (case map_of (cells r) k of None \<Rightarrow> Inl KeyError | Some v \<Rightarrow> Inr v)"

type_synonym change = "string \<times> string option \<times> string option"

record comparison =
  added :: "string set"
  removed :: "string set"
  common :: "string set"
  updated :: "change list"
  enabled_changes :: "change list"

text \<open>One pass of the loop over the common keys.\<close>

definition compare_key ::
  "(string \<times> row) list \<Rightarrow> (string \<times> row) list \<Rightarrow> change list \<times> change list \<Rightarrow> string \<Rightarrow>
     error + change list \<times> change list" where
  "compare_key mods1 mods2 acc key =
    (case (map_of mods1 key, map_of mods2 key) of
       (Some r1, Some r2) \<Rightarrow>
         (case (row_item r1 ''Version'', row_item r2 ''Version'') of
            (Inr v1, Inr v2) \<Rightarrow>
              (case (row_item r1 ''Enabled'', row_item r2 ''Enabled'') of
                 (Inr e1, Inr e2) \<Rightarrow>
                   Inr ((if v1 \<noteq> v2 then fst acc @ [(key, v2, v1)] else fst acc),
                        (if e1 \<noteq> e2 then snd acc @ [(key, e2, e1)] else snd acc))
               | _ \<Rightarrow> Inl KeyError)
          | _ \<Rightarrow> Inl KeyError)
     | _ \<Rightarrow> Inl KeyError)"

fun compare_loop ::
  "(string \<times> row) list \<Rightarrow> (string \<times> row) list \<Rightarrow> change list \<times> change list \<Rightarrow> string list \<Rightarrow>
     error + change list \<times> change list" where
  "compare_loop mods1 mods2 acc [] = Inr acc"
| "compare_loop mods1 mods2 acc (key # keys) =
    (case compare_key mods1 mods2 acc key of
       Inl e \<Rightarrow> Inl e
     | Inr acc' \<Rightarrow> compare_loop mods1 mods2 acc' keys)"

text \<open>
  The computation of \<^verbatim>\<open>compare_exports\<close> on the two loaded mappings, \<open>mods1\<close> the newer one.
  Python iterates over the set \<^verbatim>\<open>common\<close> in an order of its own; here the common keys are
  taken in the order of \<open>mods1\<close>. The results are sorted before they are shown.
\<close>

definition compare_mods :: "(string \<times> row) list \<Rightarrow> (string \<times> row) list \<Rightarrow> error + comparison" where
  "compare_mods mods1 mods2 =
    (let keys1 = set (map fst mods1);
         keys2 = set (map fst mods2)
     in case compare_loop mods1 mods2 ([], []) (filter (\<lambda>k. k \<in> keys2) (map fst mods1)) of
          Inl e \<Rightarrow> Inl e
        | Inr (upd, en) \<Rightarrow>
            Inr \<lparr> added = keys1 - keys2, removed = keys2 - keys1, common = keys1 \<inter> keys2,
                  updated = upd, enabled_changes = en \<rparr>)"

text \<open>The records of a snapshot all carry the two columns the comparison reads.\<close>

definition has_columns :: "(string \<times> row) list \<Rightarrow> bool" where
  "has_columns mods =
    list_all (\<lambda>(k, r). map_of (cells r) ''Version'' \<noteq> None \<and> map_of (cells r) ''Enabled'' \<noteq> None) mods"

text \<open>What makes \<open>(key, old version, new version)\<close> a version change between two snapshots.\<close>

definition version_change :: "(string \<times> row) list \<Rightarrow> (string \<times> row) list \<Rightarrow> change \<Rightarrow> bool" where
  "version_change mods1 mods2 ch =
    (case ch of (key, ov, nv) \<Rightarrow>
      (\<exists>r1 r2. map_of mods1 key = Some r1 \<and> map_of mods2 key = Some r2 \<and>
         map_of (cells r1) ''Version'' = Some nv \<and> map_of (cells r2) ''Version'' = Some ov \<and> ov \<noteq> nv))"

section \<open>The reader on a stream of characters\<close>

text \<open>
  The rows \<^const>\<open>reader_rows\<close> yields on the lines of the text \<open>s\<close> followed by the lines
  \<open>later\<close>, by recursion over the characters of \<open>s\<close>: a line ends after each \<^verbatim>\<open>\n\<close>, where the
  parser is given the end-of-line mark.
\<close>

fun run :: "parser \<Rightarrow> string \<Rightarrow> string list \<Rightarrow> csv_error + string list list" where
  "run p [] later = reader_rows p later"
| "run p (c # cs) later =
    (case parse_process_char p (Some c) of
       Inl e \<Rightarrow> Inl e
     | Inr q \<Rightarrow>
         if c = LF
         then (case parse_process_char q None of
                 Inl e \<Rightarrow> Inl e
               | Inr q' \<Rightarrow>
                   if state q' = START_RECORD
                   then map_sum id (\<lambda>rows. rec_fields q' # rows) (run parse_reset cs later)
                   else run q' cs later)
         else run q cs later)"

text \<open>The row of a canonical record as the reader returns it.\<close>

definition row_of :: "string mod_info \<Rightarrow> row" where
  "row_of m = dict_row headers (map universal_newlines (mod_row m))"

definition key_of :: "string mod_info \<Rightarrow> string" where
  "key_of m = author m @ '':'' @ name m"

text \<open>A row none of whose fields holds a line break.\<close>

definition plain_row :: "string list \<Rightarrow> bool" where
  "plain_row r = (\<forall>f\<in>set r. CR \<notin> set f \<and> LF \<notin> set f)"

section \<open>Properties of the manifest normalizer\<close>

lemma split_on_nonempty: "split_on sep s \<noteq> []"
  by (induction s) auto

lemma split_on_no_sep: "sep \<notin> set a \<Longrightarrow> split_on sep a = [a]"
  by (induction a) auto


lemma digit_char_is_digit: "d < 10 \<Longrightarrow> is_digit (digit_char d)"
  by (simp add: is_digit_def digit_char_def)

lemma str_nat_decimal: "is_decimal (str_nat n)"
proof (induction n rule: str_nat.induct)
  case (1 n)
  show ?case
  proof (cases "n < 10")
    case True
    then show ?thesis
      by (subst str_nat.simps) (simp add: is_decimal_def digit_char_is_digit)
  next
    case False
    with 1 have "is_decimal (str_nat (n div 10))" by simp
    with False show ?thesis
      by (subst str_nat.simps) (simp add: is_decimal_def digit_char_is_digit)
  qed
qed

lemma length_str_nat: "0 < k \<Longrightarrow> length (str_nat n) \<le> k \<longleftrightarrow> n < 10 ^ k"
proof (induction n arbitrary: k rule: str_nat.induct)
  case (1 n)
  show ?case
  proof (cases "n < 10")
    case True
    have "(10::nat) ^ 1 \<le> 10 ^ k"
      using 1(2) by (intro power_increasing) simp_all
    with True have "n < 10 ^ k" by simp
    with True 1(2) show ?thesis
      by (subst str_nat.simps) simp
  next
    case False
    have "str_nat (n div 10) \<noteq> []"
      using str_nat_decimal [of "n div 10"] by (simp add: is_decimal_def)
    then have pos: "0 < length (str_nat (n div 10))" by simp
    show ?thesis
    proof (cases "k = 1")
      case True
      with False pos show ?thesis
        by (subst str_nat.simps) simp
    next
      case k: False
      with 1(2) obtain j where j: "k = Suc j" "0 < j"
        by (cases k) auto
      from 1(1) [OF False j(2)] have "length (str_nat (n div 10)) \<le> j \<longleftrightarrow> n div 10 < 10 ^ j" .
      also have "\<dots> \<longleftrightarrow> n < 10 ^ k"
        by (simp add: j(1) div_less_iff_less_mult mult.commute)
      finally show ?thesis
        using False by (subst str_nat.simps) (simp add: j(1))
    qed
  qed
qed

lemma max_str_digits_pos: "0 < max_str_digits"
  by (simp add: max_str_digits_def)

lemma str_int_raises: "str_int i = Inl ValueError \<longleftrightarrow> 10 ^ max_str_digits \<le> \<bar>i\<bar>"
proof -
  have "max_str_digits < length (str_nat (nat \<bar>i\<bar>)) \<longleftrightarrow> 10 ^ max_str_digits \<le> nat \<bar>i\<bar>"
    using length_str_nat [OF max_str_digits_pos, of "nat \<bar>i\<bar>"] by auto
  also have "\<dots> \<longleftrightarrow> 10 ^ max_str_digits \<le> \<bar>i\<bar>"
    by (simp add: le_nat_iff)
  finally show ?thesis
    by (simp add: str_int_def)
qed

lemma str_int_returns: "\<bar>i\<bar> < 10 ^ max_str_digits \<Longrightarrow> str_int i = Inr (decimal i)"
  using str_int_raises [of i] by (auto simp: str_int_def)

lemma below_limit: "\<bar>i\<bar> < 10000 \<Longrightarrow> \<bar>i\<bar> < (10::int) ^ max_str_digits"
proof -
  have "(10::int) ^ 4 \<le> 10 ^ max_str_digits"
    by (intro power_increasing) (simp_all add: max_str_digits_def)
  then show "\<bar>i\<bar> < 10000 \<Longrightarrow> \<bar>i\<bar> < (10::int) ^ max_str_digits"
    by simp
qed

lemma str_int_small: "\<bar>i\<bar> < 10000 \<Longrightarrow> str_int i = Inr (decimal i)"
  by (intro str_int_returns below_limit)







lemma parse_mod_info_name_field:
  assumes "parse_mod_info dict_str raw = Inr r"
  shows "name r = dict_get raw ''displayName'' (dict_get raw ''name'' (YStr ''Unknown''))"
  using assms by (auto simp: parse_mod_info_def Let_def split: sum.splits)

text \<open>Which values \<^verbatim>\<open>str()\<close> does not convert.\<close>

lemma py_str_raises:
  "isl (py_str dict_str v) \<longleftrightarrow>
    (case v of YInt i \<Rightarrow> 10 ^ max_str_digits \<le> \<bar>i\<bar> | YMap d \<Rightarrow> isl (dict_str d)
     | YOther t s \<Rightarrow> isl s | _ \<Rightarrow> False)"
proof (cases v)
  case (YInt i)
  have "isl (str_int i) \<longleftrightarrow> str_int i = Inl ValueError"
    by (simp add: str_int_def)
  then show ?thesis
    by (simp add: YInt str_int_raises)
qed simp_all




text \<open>
  Claim C3 (name derivation), as the code has it: the name is the value stored under
  \<^verbatim>\<open>displayName\<close> whenever that key is present, a null included; it follows the rule of the
  specification in every other case, that is, unless the display name is present and null.
\<close>

theorem parse_mod_info_name:
  assumes "parse_mod_info dict_str raw = Inr r"
  shows "(map_of raw (YStr ''displayName'') \<noteq> Some YNull \<longrightarrow> name r = name_rule_spec raw) \<and>
         (map_of raw (YStr ''displayName'') = Some YNull \<longrightarrow> name r = YNull)"
proof -
  from assms have "name r = dict_get raw ''displayName'' (dict_get raw ''name'' (YStr ''Unknown''))"
    by (rule parse_mod_info_name_field)
  then show ?thesis
    by (auto simp: dict_get_def name_rule_spec_def split: option.splits)
qed

theorem parse_mod_info_name_witness:
  "name \<lparr> name = YStr ''Epic Loot'', author = YStr ''Unknown'', version = ''0.0.0'',
          description = YStr '''', enabled = ''No'', website = YStr '''' \<rparr>
     = name_rule_spec [(YStr ''displayName'', YStr ''Epic Loot''), (YStr ''name'', YStr ''X'')] \<and>
   name \<lparr> name = YNull, author = YStr ''Unknown'', version = ''0.0.0'',
          description = YStr '''', enabled = ''No'', website = YStr '''' \<rparr> = YNull"
proof -
  have "decimal 0 = ''0''"
    by code_simp
  then have 0: "str_int 0 = Inr ''0''"
    by (simp add: str_int_small)
  have 1: "parse_mod_info (\<lambda>d. Inr ''{}'')
      [(YStr ''displayName'', YStr ''Epic Loot''), (YStr ''name'', YStr ''X'')] =
     Inr \<lparr> name = YStr ''Epic Loot'', author = YStr ''Unknown'', version = ''0.0.0'',
           description = YStr '''', enabled = ''No'', website = YStr '''' \<rparr>"
    by (simp add: parse_mod_info_def dict_get_def value_get_def 0)
  have 2: "parse_mod_info (\<lambda>d. Inr ''{}'') [(YStr ''displayName'', YNull)] =
     Inr \<lparr> name = YNull, author = YStr ''Unknown'', version = ''0.0.0'',
           description = YStr '''', enabled = ''No'', website = YStr '''' \<rparr>"
    by (simp add: parse_mod_info_def dict_get_def value_get_def 0)
  from parse_mod_info_name [OF 1] parse_mod_info_name [OF 2] show ?thesis
    by simp
qed

text \<open>
  Claim C3 as stated fails: with \<^verbatim>\<open>displayName: null\<close> and \<^verbatim>\<open>name: X\<close> the normalized name
  is null, where the rule of the specification falls back to \<^verbatim>\<open>X\<close>.
\<close>

theorem parse_mod_info_name_counterexample:
  "map_sum id name (parse_mod_info (\<lambda>d. Inr ''{}'')
      [(YStr ''displayName'', YNull), (YStr ''name'', YStr ''X'')]) = Inr YNull \<and>
   name_rule_spec [(YStr ''displayName'', YNull), (YStr ''name'', YStr ''X'')] = YStr ''X''"
  by (simp add: parse_mod_info_def dict_get_def value_get_def str_int_small name_rule_spec_def)




section \<open>Properties of the statistics engine\<close>

subsection \<open>Stable sorting\<close>

lemma sorted_wrt_insort_key_stable:
  assumes "sorted_wrt (\<lambda>x y. f x < f y \<or> (f x = f y \<and> S x y)) ys"
    and "\<forall>y\<in>set ys. S x y"
  shows "sorted_wrt (\<lambda>x y. f x < f y \<or> (f x = f y \<and> S x y)) (insort_key f x ys)"
  using assms
proof (induction ys)
  case Nil
  then show ?case by simp
next
  case (Cons y ys)
  show ?case
  proof (cases "f x \<le> f y")
    case True
    have "f x < f z \<or> (f x = f z \<and> S x z)" if "z \<in> set (y # ys)" for z
    proof -
      have "f y \<le> f z" using that Cons.prems(1) by auto
      with True have "f x \<le> f z" by simp
      moreover have "S x z" using that Cons.prems(2) by auto
      ultimately show ?thesis by auto
    qed
    with True Cons.prems(1) show ?thesis by simp
  next
    case False
    then have "f y < f x" by simp
    moreover have "sorted_wrt (\<lambda>x y. f x < f y \<or> (f x = f y \<and> S x y)) (insort_key f x ys)"
      using Cons by simp
    ultimately show ?thesis
      using False Cons.prems(1) by (auto simp: set_insort_key)
  qed
qed

lemma sorted_wrt_sort_key_stable:
  assumes "sorted_wrt S xs"
  shows "sorted_wrt (\<lambda>x y. f x < f y \<or> (f x = f y \<and> S x y)) (sort_key f xs)"
  using assms
proof (induction xs)
  case Nil
  then show ?case by simp
next
  case (Cons x xs)
  then have "sorted_wrt (\<lambda>x y. f x < f y \<or> (f x = f y \<and> S x y)) (sort_key f xs)"
    and "\<forall>y\<in>set (sort_key f xs). S x y"
    by simp_all
  then show ?case
    by (simp add: sorted_wrt_insort_key_stable)
qed

lemma sorted_wrt_sorted_reverse:
  assumes "sorted_wrt S xs"
  shows "sorted_wrt (\<lambda>x y. key y < key x \<or> (key x = key y \<and> S x y)) (sorted_reverse key xs)"
proof -
  from assms have "sorted_wrt (\<lambda>x y. S y x) (rev xs)"
    by (simp add: sorted_wrt_rev)
  from sorted_wrt_sort_key_stable [OF this, of key]
  have "sorted_wrt (\<lambda>x y. key x < key y \<or> (key x = key y \<and> S y x)) (sort_key key (rev xs))" .
  then have "sorted_wrt (\<lambda>x y. key y < key x \<or> (key y = key x \<and> S x y)) (sorted_reverse key xs)"
    by (simp add: sorted_reverse_def sorted_wrt_rev)
  then show ?thesis
    by (rule sorted_wrt_mono_rel [rotated]) auto
qed

lemma length_sorted_reverse [simp]: "length (sorted_reverse key xs) = length xs"
  by (simp add: sorted_reverse_def)

lemma set_sorted_reverse [simp]: "set (sorted_reverse key xs) = set xs"
  by (simp add: sorted_reverse_def)

lemma mset_sorted_reverse [simp]: "mset (sorted_reverse key xs) = mset xs"
  by (simp add: sorted_reverse_def)




subsection \<open>Counting authors\<close>

text \<open>The keys in order of first encounter.\<close>

lemma Counter_snoc: "Counter (xs @ [x]) = counter_add x (Counter xs)"
  by (simp add: Counter_def)

lemma counter_add_tabulated:
  "distinct ks \<Longrightarrow> counter_add x (map (\<lambda>a. (a, f a)) ks) =
    (if x \<in> set ks then map (\<lambda>a. (a, if a = x then f a + 1 else f a)) ks
     else map (\<lambda>a. (a, f a)) ks @ [(x, 1)])"
  by (induction ks) auto

lemma Counter_tabulated:
  "Counter xs = map (\<lambda>a. (a, count_list xs a)) (rev (remdups (rev xs)))"
proof (induction xs rule: rev_induct)
  case Nil
  then show ?case by (simp add: Counter_def)
next
  case (snoc x xs)
  have d: "distinct (rev (remdups (rev xs)))" by simp
  have step: "Counter (xs @ [x]) =
      counter_add x (map (\<lambda>a. (a, count_list xs a)) (rev (remdups (rev xs))))"
    by (simp add: Counter_snoc snoc)
  show ?case
  proof (cases "x \<in> set xs")
    case True
    then show ?thesis
      unfolding step counter_add_tabulated [OF d] by simp
  next
    case False
    then have "count_list xs x = 0"
      by (simp add: count_list_0_iff)
    with False show ?thesis
      unfolding step counter_add_tabulated [OF d] by auto
  qed
qed

lemma length_Counter: "length (Counter xs) = card (set xs)"
proof -
  have "length (Counter xs) = length (remdups (rev xs))"
    by (simp add: Counter_tabulated)
  also have "\<dots> = card (set (rev xs))"
    by (rule length_remdups_card_conv)
  finally show ?thesis by simp
qed

lemma first_index_old: "a \<in> set xs \<Longrightarrow> first_index (xs @ ys) a = first_index xs a"
  by (simp add: first_index_def)

lemma first_index_new: "a \<notin> set xs \<Longrightarrow> first_index (xs @ [a]) a = length xs"
proof -
  assume "a \<notin> set xs"
  then have "takeWhile (\<lambda>x. x \<noteq> a) (xs @ [a]) = xs @ takeWhile (\<lambda>x. x \<noteq> a) [a]"
    by (intro takeWhile_append2) auto
  then show ?thesis by (simp add: first_index_def)
qed

lemma first_index_less: "a \<in> set xs \<Longrightarrow> first_index xs a < length xs"
proof (induction xs)
  case Nil
  then show ?case by simp
next
  case (Cons x xs)
  then show ?case by (auto simp: first_index_def)
qed

lemma firsts_sorted:
  "sorted_wrt (\<lambda>a b. first_index xs a < first_index xs b) (rev (remdups (rev xs)))"
proof (induction xs rule: rev_induct)
  case Nil
  then show ?case by simp
next
  case (snoc x xs)
  let ?ks = "rev (remdups (rev xs))"
  have keys: "set ?ks = set xs" by simp
  have old: "sorted_wrt (\<lambda>a b. first_index (xs @ [x]) a < first_index (xs @ [x]) b) ?ks"
    by (rule sorted_wrt_mono_rel [OF _ snoc]) (simp add: first_index_old)
  show ?case
  proof (cases "x \<in> set xs")
    case True
    with old show ?thesis by simp
  next
    case False
    have "first_index (xs @ [x]) a < first_index (xs @ [x]) x" if "a \<in> set xs" for a
      using that False by (simp add: first_index_old first_index_new first_index_less)
    with old False show ?thesis
      by (simp add: sorted_wrt_append)
  qed
qed

lemma Counter_sorted:
  "sorted_wrt (\<lambda>p q. first_index xs (fst p) < first_index xs (fst q)) (Counter xs)"
  unfolding Counter_tabulated
  by (simp add: sorted_wrt_map firsts_sorted)

lemma sorted_wrt_take_any: "sorted_wrt R xs \<Longrightarrow> sorted_wrt R (take n xs)"
  by (metis append_take_drop_id sorted_wrt_append)

subsection \<open>Parsing version strings\<close>

lemma those_map_None: "those (map f xs) = None \<longleftrightarrow> (\<exists>x\<in>set xs. f x = None)"
  by (induction xs) (auto split: option.splits)

lemma those_map_Some:
  "(\<forall>x\<in>set xs. f x \<noteq> None) \<Longrightarrow> those (map f xs) = Some (map (the \<circ> f) xs)"
  by (induction xs) (auto split: option.splits)

lemma is_digit_not_space: "is_digit c \<Longrightarrow> \<not> is_int_space c"
  by (auto simp: is_digit_def is_int_space_def)

lemma strip_decimal: "is_decimal s \<Longrightarrow> strip_chars is_int_space s = s"
proof -
  assume d: "is_decimal s"
  then obtain c cs where s: "s = c # cs"
    by (cases s) (auto simp: is_decimal_def)
  from d have all: "\<forall>x\<in>set s. \<not> is_int_space x"
    by (auto simp: is_decimal_def list_all_iff dest: is_digit_not_space)
  then have 1: "dropWhile is_int_space s = s"
    by (simp add: s)
  from all have "\<not> is_int_space (last s)"
    using s by (metis last_in_set list.distinct(1))
  then have "\<not> is_int_space (hd (rev s))"
    by (simp add: hd_rev)
  then have "dropWhile is_int_space (rev s) = rev s"
    by (cases "rev s") auto
  with 1 show ?thesis
    by (simp add: strip_chars_def)
qed

lemma int_digits_all_digits: "list_all is_digit s \<Longrightarrow> int_digits acc s \<noteq> None"
  by (induction acc s rule: int_digits.induct) auto

lemma filter_all_digits: "list_all is_digit s \<Longrightarrow> filter is_digit s = s"
  by (induction s) auto

lemma py_int_decimal: "is_decimal s \<Longrightarrow> length s \<le> max_str_digits \<Longrightarrow> py_int s \<noteq> None"
proof -
  assume d: "is_decimal s" and l: "length s \<le> max_str_digits"
  then obtain c cs where s: "s = c # cs" and c: "is_digit c" and cs: "list_all is_digit cs"
    by (cases s) (auto simp: is_decimal_def)
  from c have "c \<noteq> CHR ''-''" "c \<noteq> CHR ''+''"
    by (auto simp: is_digit_def)
  moreover have "filter is_digit (c # cs) = c # cs"
    using c cs by (simp add: filter_all_digits)
  then have "int_unsigned (c # cs) \<noteq> None"
    using c cs l unfolding int_unsigned_def s by (simp add: int_digits_all_digits)
  ultimately show ?thesis
    using strip_decimal [OF d] by (auto simp: py_int_def s)
qed

text \<open>The limit on the number of digits.\<close>

lemma filter_dropWhile_other:
  "(\<And>x. P x \<Longrightarrow> \<not> Q x) \<Longrightarrow> filter Q (dropWhile P xs) = filter Q xs"
  by (induction xs) auto

lemma digits_strip: "filter is_digit (strip_chars is_int_space s) = filter is_digit s"
proof -
  have "filter is_digit (dropWhile is_int_space xs) = filter is_digit xs" for xs
    by (rule filter_dropWhile_other) (auto dest: is_digit_not_space)
  then show ?thesis
    by (simp add: strip_chars_def rev_filter [symmetric])
qed

lemma py_int_too_long:
  assumes "max_str_digits < length (filter is_digit s)"
  shows "py_int s = None"
proof (cases "strip_chars is_int_space s")
  case Nil
  then show ?thesis by (simp add: py_int_def)
next
  case (Cons c cs)
  from assms have long: "max_str_digits < length (filter is_digit (c # cs))"
    using digits_strip [of s] by (simp add: Cons)
  then have 1: "int_unsigned (c # cs) = None"
    by (simp add: int_unsigned_def)
  have "\<not> is_digit CHR ''-''" "\<not> is_digit CHR ''+''"
    by (simp_all add: is_digit_def)
  with long have 2: "c = CHR ''-'' \<or> c = CHR ''+'' \<Longrightarrow> int_unsigned cs = None"
    by (auto simp: int_unsigned_def)
  from 1 2 show ?thesis
    by (auto simp: py_int_def Cons)
qed

subsection \<open>Claims about the statistics engine\<close>

text \<open>
  Claim C4 (lenient version parse), as the code has it: \<^verbatim>\<open>version_key\<close> is total, so no
  version string aborts the computation. If \<^verbatim>\<open>int()\<close> rejects a component, the key is
  \<open>(0, 0, 0)\<close>; otherwise it is the tuple of the integers of all components, however many
  there are. \<^verbatim>\<open>int()\<close> rejects every component of more than 4300 digits, and it accepts the
  components of a version of the format \<^verbatim>\<open><major>.<minor>.<patch>\<close> when none is longer; the key
  of a version of that format is a 3-tuple in either case.
\<close>

theorem version_key_lenient:
  "(is_version_string (version m) \<longrightarrow> length (version_key m) = 3) \<and>
   ((\<exists>p\<in>set (split_on CHR ''.'' (version m)). py_int p = None) \<longrightarrow> version_key m = [0, 0, 0]) \<and>
   ((\<forall>p\<in>set (split_on CHR ''.'' (version m)). py_int p \<noteq> None) \<longrightarrow>
      version_key m = map (the \<circ> py_int) (split_on CHR ''.'' (version m))) \<and>
   ((\<exists>p\<in>set (split_on CHR ''.'' (version m)). max_str_digits < length (filter is_digit p)) \<longrightarrow>
      version_key m = [0, 0, 0]) \<and>
   (is_version_string (version m) \<and>
    (\<forall>p\<in>set (split_on CHR ''.'' (version m)). length p \<le> max_str_digits) \<longrightarrow>
      (\<forall>p\<in>set (split_on CHR ''.'' (version m)). py_int p \<noteq> None))"
proof -
  let ?parts = "split_on CHR ''.'' (version m)"
  have bad: "version_key m = [0, 0, 0]" if "\<exists>p\<in>set ?parts. py_int p = None"
    using that those_map_None [of py_int ?parts] by (simp add: version_key_def)
  have good: "version_key m = map (the \<circ> py_int) ?parts" if "\<forall>p\<in>set ?parts. py_int p \<noteq> None"
    using those_map_Some [OF that] by (simp add: version_key_def)
  have three: "length (version_key m) = 3" if "is_version_string (version m)"
  proof -
    from that obtain a b c where parts: "?parts = [a, b, c]"
      by (auto simp: is_version_string_def split: list.splits)
    show ?thesis
    proof (cases "\<exists>p\<in>set ?parts. py_int p = None")
      case True
      from bad [OF this] show ?thesis by simp
    next
      case False
      then have "\<forall>p\<in>set ?parts. py_int p \<noteq> None" by simp
      from good [OF this] show ?thesis
        by (simp add: parts)
    qed
  qed
  have long: "version_key m = [0, 0, 0]"
    if "\<exists>p\<in>set ?parts. max_str_digits < length (filter is_digit p)"
  proof -
    from that have "\<exists>p\<in>set ?parts. py_int p = None"
      using py_int_too_long by blast
    then show ?thesis by (rule bad)
  qed
  have short: "\<forall>p\<in>set ?parts. py_int p \<noteq> None"
    if "is_version_string (version m)" "\<forall>p\<in>set ?parts. length p \<le> max_str_digits"
  proof -
    from that(1) obtain a b c where parts: "?parts = [a, b, c]"
      and "is_decimal a" "is_decimal b" "is_decimal c"
      by (auto simp: is_version_string_def split: list.splits)
    with that(2) show ?thesis
      using py_int_decimal by (auto simp: parts)
  qed
  from bad good three long short show ?thesis by blast
qed

theorem version_key_lenient_witness:
  "length (version_key (example_mod ''A'' ''X'' ''5.4.2333'' ''Yes'')) = 3 \<and>
   version_key (example_mod ''A'' ''X'' ''5.4.2333'' ''Yes'') = [5, 4, 2333] \<and>
   version_key (example_mod ''A'' ''X'' ''1.x.3'' ''Yes'') = [0, 0, 0] \<and>
   version_key (example_mod ''A'' ''X'' (replicate (Suc max_str_digits) CHR ''1'') ''Yes'') = [0, 0, 0]"
proof -
  let ?long = "replicate (Suc max_str_digits) CHR ''1''"
  have parts: "split_on CHR ''.'' (version (example_mod ''A'' ''X'' ''5.4.2333'' ''Yes'')) =
      [''5'', ''4'', ''2333'']"
    by code_simp
  have 1: "is_version_string (version (example_mod ''A'' ''X'' ''5.4.2333'' ''Yes''))"
    by code_simp
  have 5: "\<forall>p\<in>set (split_on CHR ''.'' (version (example_mod ''A'' ''X'' ''5.4.2333'' ''Yes''))).
      length p \<le> max_str_digits"
    unfolding parts by (simp add: max_str_digits_def)
  have 3: "\<exists>p\<in>set (split_on CHR ''.'' (version (example_mod ''A'' ''X'' ''1.x.3'' ''Yes''))).
      py_int p = None"
    by code_simp
  have 4: "map (the \<circ> py_int) (split_on CHR ''.'' (version (example_mod ''A'' ''X'' ''5.4.2333'' ''Yes'')))
      = [5, 4, 2333]"
    by code_simp
  have "split_on CHR ''.'' ?long = [?long]"
    by (rule split_on_no_sep) simp
  moreover have "filter is_digit ?long = ?long"
    by (simp add: is_digit_def)
  ultimately have 6: "\<exists>p\<in>set (split_on CHR ''.'' (version (example_mod ''A'' ''X'' ?long ''Yes''))).
      max_str_digits < length (filter is_digit p)"
    by (simp add: example_mod_def)
  from version_key_lenient [of "example_mod ''A'' ''X'' ''5.4.2333'' ''Yes''"] 1 5
  have a: "length (version_key (example_mod ''A'' ''X'' ''5.4.2333'' ''Yes'')) = 3"
    and b: "version_key (example_mod ''A'' ''X'' ''5.4.2333'' ''Yes'') = [5, 4, 2333]"
    unfolding 4 by blast+
  from version_key_lenient [of "example_mod ''A'' ''X'' ''1.x.3'' ''Yes''"] 3
  have c: "version_key (example_mod ''A'' ''X'' ''1.x.3'' ''Yes'') = [0, 0, 0]"
    by blast
  from version_key_lenient [of "example_mod ''A'' ''X'' ?long ''Yes''"] 6
  have d: "version_key (example_mod ''A'' ''X'' ?long ''Yes'') = [0, 0, 0]"
    by blast
  from a b c d show ?thesis by simp
qed

text \<open>
  Claim C4 as stated fails on the arity: a version with two or with four numeric
  components is not replaced by \<open>(0, 0, 0)\<close>; its key is a 2-tuple or a 4-tuple.
\<close>

theorem version_key_arity_counterexample:
  "version_key (example_mod ''A'' ''X'' ''1.2'' ''Yes'') = [1, 2] \<and>
   version_key (example_mod ''A'' ''X'' ''1.2.3.4'' ''Yes'') = [1, 2, 3, 4]"
  by code_simp




text \<open>
  Claim C8 (top authors): the list has \<open>min 5 (number of distinct authors)\<close> entries, each
  an author with the number of its records; it is sorted by descending count, and authors
  with equal counts stand in the order in which they are first met in the input.
\<close>

theorem top_authors_ranking:
  "length (top_authors (calculate_statistics mods_list profile now)) =
      min 5 (card (author ` set mods_list)) \<and>
   sorted_wrt (ranks_before (map author mods_list))
      (top_authors (calculate_statistics mods_list profile now)) \<and>
   top_authors (calculate_statistics mods_list profile now) =
      map (\<lambda>a. (a, count_list (map author mods_list) a))
        (map fst (top_authors (calculate_statistics mods_list profile now)))"
proof -
  define authors where "authors = map author mods_list"
  define ranked where "ranked = sorted_reverse snd (Counter authors)"
  have top: "top_authors (calculate_statistics mods_list profile now) = take 5 ranked"
    by (simp add: calculate_statistics_def Let_def most_common_def ranked_def authors_def)
  have "length (take 5 ranked) = min 5 (card (set authors))"
    by (simp add: ranked_def length_Counter min.commute)
  then have 1: "length (take 5 ranked) = min 5 (card (author ` set mods_list))"
    by (simp add: authors_def)
  have "sorted_wrt (\<lambda>p q. snd q < snd p \<or>
          (snd p = snd q \<and> first_index authors (fst p) < first_index authors (fst q))) ranked"
    unfolding ranked_def by (rule sorted_wrt_sorted_reverse) (rule Counter_sorted)
  then have 2: "sorted_wrt (ranks_before authors) (take 5 ranked)"
    unfolding ranks_before_def by (rule sorted_wrt_take_any)
  have counted: "\<forall>p\<in>set (Counter authors). snd p = count_list authors (fst p)"
    unfolding Counter_tabulated by auto
  have "(fst p, count_list authors (fst p)) = p" if "p \<in> set (take 5 ranked)" for p
  proof -
    from that have "p \<in> set (Counter authors)"
      by (auto simp: ranked_def dest: in_set_takeD)
    with counted have "snd p = count_list authors (fst p)" by blast
    then show ?thesis by (cases p) simp
  qed
  then have "map (\<lambda>p. (fst p, count_list authors (fst p))) (take 5 ranked) = take 5 ranked"
    by (rule map_idI)
  then have 3: "take 5 ranked = map (\<lambda>a. (a, count_list authors a)) (map fst (take 5 ranked))"
    by (simp add: comp_def)
  from 1 2 3 show ?thesis
    unfolding top authors_def by blast
qed

theorem top_authors_ranking_witness:
  "top_authors (calculate_statistics
      [example_mod ''B'' ''X'' ''1.0.0'' ''Yes'', example_mod ''A'' ''Y'' ''1.0.0'' ''Yes'',
       example_mod ''C'' ''Z'' ''1.0.0'' ''No'', example_mod ''A'' ''W'' ''1.0.0'' ''Yes'',
       example_mod ''B'' ''V'' ''1.0.0'' ''Yes''] ''p'' ''t'') =
     [(''B'', 2), (''A'', 2), (''C'', 1)] \<and>
   sorted_wrt (ranks_before [''B'', ''A'', ''C'', ''A'', ''B'']) [(''B'', 2), (''A'', 2), (''C'', 1)]"
proof -
  have top: "top_authors (calculate_statistics
      [example_mod ''B'' ''X'' ''1.0.0'' ''Yes'', example_mod ''A'' ''Y'' ''1.0.0'' ''Yes'',
       example_mod ''C'' ''Z'' ''1.0.0'' ''No'', example_mod ''A'' ''W'' ''1.0.0'' ''Yes'',
       example_mod ''B'' ''V'' ''1.0.0'' ''Yes''] ''p'' ''t'') =
     [(''B'', 2), (''A'', 2), (''C'', 1)]"
    by code_simp
  have authors: "map author
      [example_mod ''B'' ''X'' ''1.0.0'' ''Yes'', example_mod ''A'' ''Y'' ''1.0.0'' ''Yes'',
       example_mod ''C'' ''Z'' ''1.0.0'' ''No'', example_mod ''A'' ''W'' ''1.0.0'' ''Yes'',
       example_mod ''B'' ''V'' ''1.0.0'' ''Yes''] = [''B'', ''A'', ''C'', ''A'', ''B'']"
    by (simp add: example_mod_def)
  from top_authors_ranking
    [of "[example_mod ''B'' ''X'' ''1.0.0'' ''Yes'', example_mod ''A'' ''Y'' ''1.0.0'' ''Yes'',
       example_mod ''C'' ''Z'' ''1.0.0'' ''No'', example_mod ''A'' ''W'' ''1.0.0'' ''Yes'',
       example_mod ''B'' ''V'' ''1.0.0'' ''Yes'']" "''p''" "''t''"]
  show ?thesis
    unfolding top authors by simp
qed



section \<open>Properties of the snapshot reader and the comparison engine\<close>

lemma find_header_None:
  "find_header ls = None \<longleftrightarrow> (\<forall>l\<in>set ls. \<not> prefix header_prefix (py_strip l))"
  by (induction ls) auto

text \<open>
  Claim C7 (missing header): when no line of the text, stripped, starts with
  \<^verbatim>\<open>Author,Mod Name,Version\<close>, the reader prints a warning and returns the empty mapping; it
  raises nothing.
\<close>

theorem load_csv_missing_header:
  assumes "\<forall>l\<in>set (readlines (universal_newlines content)). \<not> prefix header_prefix (py_strip l)"
  shows "load_csv_for_comparison file_name content =
    Inr ([''Warning: Could not find mod data header in '' @ file_name], [])"
  using assms by (simp add: load_csv_for_comparison_def find_header_None [symmetric])

theorem load_csv_missing_header_witness:
  "load_csv_for_comparison ''old.csv'' (''PROFILE STATISTICS'' @ [CR, LF] @ ''Mod Name,Author,Version'' @ [CR, LF]) =
    Inr ([''Warning: Could not find mod data header in old.csv''], [])"
proof -
  have "\<forall>l\<in>set (readlines (universal_newlines
      (''PROFILE STATISTICS'' @ [CR, LF] @ ''Mod Name,Author,Version'' @ [CR, LF]))).
      \<not> prefix header_prefix (py_strip l)"
    by code_simp
  from load_csv_missing_header [OF this, of "''old.csv''"] show ?thesis
    by simp
qed

lemma dict_row_headers:
  "dict_row headers [a, n, v, e, d, w] =
    \<lparr> cells = [(''Author'', Some a), (''Mod Name'', Some n), (''Version'', Some v),
                (''Enabled'', Some e), (''Description'', Some d), (''Website'', Some w)],
      rest_fields = None \<rparr>"
  by (simp add: dict_row_def headers_def)

lemma row_of_cells:
  "row_of m =
    \<lparr> cells = [(''Author'', Some (universal_newlines (author m))),
                (''Mod Name'', Some (universal_newlines (name m))),
                (''Version'', Some (universal_newlines (version m))),
                (''Enabled'', Some (universal_newlines (enabled m))),
                (''Description'', Some (universal_newlines (description m))),
                (''Website'', Some (universal_newlines (website m)))],
      rest_fields = None \<rparr>"
  by (simp add: row_of_def mod_row_def dict_row_headers)

lemma has_columnsD:
  assumes "has_columns mods" "map_of mods key = Some r"
  shows "\<exists>v e. map_of (cells r) ''Version'' = Some v \<and> map_of (cells r) ''Enabled'' = Some e"
proof -
  from assms(2) have "(key, r) \<in> set mods" by (rule map_of_SomeD)
  with assms(1) show ?thesis
    by (auto simp: has_columns_def list_all_iff)
qed

lemma compare_key_columns:
  assumes "map_of mods1 key = Some r1" "map_of mods2 key = Some r2"
    and "map_of (cells r1) ''Version'' = Some v1" "map_of (cells r2) ''Version'' = Some v2"
    and "map_of (cells r1) ''Enabled'' = Some e1" "map_of (cells r2) ''Enabled'' = Some e2"
  shows "compare_key mods1 mods2 acc key =
    Inr ((if v1 \<noteq> v2 then fst acc @ [(key, v2, v1)] else fst acc),
         (if e1 \<noteq> e2 then snd acc @ [(key, e2, e1)] else snd acc))"
  using assms by (simp add: compare_key_def row_item_def)

lemma compare_loop_columns:
  assumes "has_columns mods1" "has_columns mods2"
    and "\<forall>k\<in>set ks. k \<in> fst ` set mods1 \<and> k \<in> fst ` set mods2"
  shows "\<exists>upd en. compare_loop mods1 mods2 acc ks = Inr (upd, en) \<and>
           set upd = set (fst acc) \<union> {ch. fst ch \<in> set ks \<and> version_change mods1 mods2 ch}"
  using assms(3)
proof (induction ks arbitrary: acc)
  case Nil
  then show ?case by (cases acc) auto
next
  case (Cons k ks)
  from Cons.prems obtain r1 r2 where r: "map_of mods1 k = Some r1" "map_of mods2 k = Some r2"
    by (metis list.set_intros(1) map_of_eq_None_iff not_None_eq)
  from has_columnsD [OF assms(1) r(1)] has_columnsD [OF assms(2) r(2)]
  obtain v1 e1 v2 e2 where c: "map_of (cells r1) ''Version'' = Some v1"
    "map_of (cells r2) ''Version'' = Some v2" "map_of (cells r1) ''Enabled'' = Some e1"
    "map_of (cells r2) ''Enabled'' = Some e2"
    by blast
  let ?acc = "((if v1 \<noteq> v2 then fst acc @ [(k, v2, v1)] else fst acc),
         (if e1 \<noteq> e2 then snd acc @ [(k, e2, e1)] else snd acc))"
  have step: "compare_loop mods1 mods2 acc (k # ks) = compare_loop mods1 mods2 ?acc ks"
    by (simp add: compare_key_columns [OF r c])
  from Cons.IH [of ?acc] Cons.prems
  obtain upd en where res: "compare_loop mods1 mods2 ?acc ks = Inr (upd, en)"
    and upd: "set upd = set (fst ?acc) \<union> {ch. fst ch \<in> set ks \<and> version_change mods1 mods2 ch}"
    by auto
  have here: "{ch. fst ch = k \<and> version_change mods1 mods2 ch} = (if v1 \<noteq> v2 then {(k, v2, v1)} else {})"
    using r c by (auto simp: version_change_def)
  have "set (fst ?acc) = set (fst acc) \<union> {ch. fst ch = k \<and> version_change mods1 mods2 ch}"
    unfolding here by auto
  with upd have "set upd = set (fst acc) \<union> {ch. fst ch \<in> set (k # ks) \<and> version_change mods1 mods2 ch}"
    by auto
  with res step show ?case by auto
qed

text \<open>
  Claim C6 (set semantics of the comparison), as the code has it: for two mappings whose
  records all carry the \<^verbatim>\<open>Version\<close> and \<^verbatim>\<open>Enabled\<close> fields the loop reads, the comparison
  returns; added, removed and common are the two differences and the intersection of the
  key sets, added and removed are disjoint, the three cover the union, and the version
  changes are exactly the triples of a common key with the older and the newer version,
  where these differ.
\<close>

theorem compare_mods_sets:
  assumes "has_columns newer" "has_columns older"
  shows "\<exists>c. compare_mods newer older = Inr c \<and>
    added c = fst ` set newer - fst ` set older \<and>
    removed c = fst ` set older - fst ` set newer \<and>
    common c = fst ` set newer \<inter> fst ` set older \<and>
    added c \<inter> removed c = {} \<and>
    added c \<union> common c \<union> removed c = fst ` set newer \<union> fst ` set older \<and>
    set (updated c) = {(key, ov, nv). key \<in> common c \<and>
       (\<exists>r1 r2. map_of newer key = Some r1 \<and> map_of older key = Some r2 \<and>
         map_of (cells r1) ''Version'' = Some nv \<and> map_of (cells r2) ''Version'' = Some ov \<and> ov \<noteq> nv)}"
proof -
  let ?ks = "filter (\<lambda>k. k \<in> set (map fst older)) (map fst newer)"
  have "\<forall>k\<in>set ?ks. k \<in> fst ` set newer \<and> k \<in> fst ` set older"
    by auto
  from compare_loop_columns [OF assms this, of "([], [])"]
  obtain upd en where res: "compare_loop newer older ([], []) ?ks = Inr (upd, en)"
    and upd: "set upd = {ch. fst ch \<in> set ?ks \<and> version_change newer older ch}"
    by auto
  have ks: "set ?ks = fst ` set newer \<inter> fst ` set older"
    by auto
  have "set upd = {(key, ov, nv). key \<in> fst ` set newer \<inter> fst ` set older \<and>
       (\<exists>r1 r2. map_of newer key = Some r1 \<and> map_of older key = Some r2 \<and>
         map_of (cells r1) ''Version'' = Some nv \<and> map_of (cells r2) ''Version'' = Some ov \<and> ov \<noteq> nv)}"
    unfolding upd ks by (auto simp: version_change_def intro: rev_image_eqI)
  with res show ?thesis
    by (auto simp: compare_mods_def Let_def)
qed

theorem compare_mods_sets_witness:
  "\<exists>c. compare_mods
          [(''A:X'', row_of (example_mod ''A'' ''X'' ''1.0.0'' ''Yes''))]
          [(''A:X'', row_of (example_mod ''A'' ''X'' ''1.0.0'' ''No'')),
           (''B:Y'', row_of (example_mod ''B'' ''Y'' ''2.0.0'' ''Yes''))] = Inr c \<and>
        added c = {} \<and> removed c = {''B:Y''} \<and> common c = {''A:X''}"
proof -
  let ?newer = "[(''A:X'', row_of (example_mod ''A'' ''X'' ''1.0.0'' ''Yes''))]"
  let ?older = "[(''A:X'', row_of (example_mod ''A'' ''X'' ''1.0.0'' ''No'')),
           (''B:Y'', row_of (example_mod ''B'' ''Y'' ''2.0.0'' ''Yes''))]"
  have n: "has_columns ?newer" and o: "has_columns ?older"
    by (simp_all add: has_columns_def row_of_cells)
  from compare_mods_sets [OF n o] obtain c where c: "compare_mods ?newer ?older = Inr c \<and>
    added c = fst ` set ?newer - fst ` set ?older \<and>
    removed c = fst ` set ?older - fst ` set ?newer \<and>
    common c = fst ` set ?newer \<inter> fst ` set ?older \<and>
    added c \<inter> removed c = {} \<and>
    added c \<union> common c \<union> removed c = fst ` set ?newer \<union> fst ` set ?older \<and>
    set (updated c) = {(key, ov, nv). key \<in> common c \<and>
       (\<exists>r1 r2. map_of ?newer key = Some r1 \<and> map_of ?older key = Some r2 \<and>
         map_of (cells r1) ''Version'' = Some nv \<and> map_of (cells r2) ''Version'' = Some ov \<and> ov \<noteq> nv)}" ..
  have 1: "compare_mods ?newer ?older = Inr c"
    using c by (rule conjunct1)
  have 2: "added c = {}"
    using c [THEN conjunct2, THEN conjunct1] by simp
  have 3: "removed c = {''B:Y''}"
    using c [THEN conjunct2, THEN conjunct2, THEN conjunct1] by simp
  have 4: "common c = {''A:X''}"
    using c [THEN conjunct2, THEN conjunct2, THEN conjunct2, THEN conjunct1] by simp
  from 1 2 3 4 show ?thesis
    by (intro exI [of _ c] conjI)
qed

text \<open>
  Claim C6 as stated fails: for two mappings that share a key whose records lack the
  \<^verbatim>\<open>Enabled\<close> field the loop raises \<^verbatim>\<open>KeyError\<close>, and no result is computed. The reader
  returns such mappings for a file whose header row stops after \<^verbatim>\<open>Version\<close>.
\<close>

theorem compare_mods_missing_column_counterexample:
  "compare_mods
     [(''A:X'', \<lparr> cells = [(''Author'', Some ''A''), (''Mod Name'', Some ''X''),
                            (''Version'', Some ''2.0.0'')], rest_fields = None \<rparr>)]
     [(''A:X'', \<lparr> cells = [(''Author'', Some ''A''), (''Mod Name'', Some ''X''),
                            (''Version'', Some ''1.0.0'')], rest_fields = None \<rparr>)]
   = Inl KeyError"
  by (simp add: compare_mods_def compare_key_def row_item_def)

section \<open>Writing a snapshot and reading it back\<close>

subsection \<open>Newline translation\<close>

lemma special_chars [simp]:
  "CR \<noteq> LF" "LF \<noteq> CR"
  "CHR ''\"'' \<noteq> CR" "CR \<noteq> CHR ''\"''" "CHR ''\"'' \<noteq> LF" "LF \<noteq> CHR ''\"''"
  "CHR '','' \<noteq> CR" "CR \<noteq> CHR '',''" "CHR '','' \<noteq> LF" "LF \<noteq> CHR '',''"
  by (simp_all add: CR_def LF_def)

lemma un_Cons_plain: "c \<noteq> CR \<Longrightarrow> universal_newlines (c # t) = c # universal_newlines t"
  by (cases t) simp_all

lemma un_no_CR: "CR \<notin> set s \<Longrightarrow> universal_newlines s = s"
  by (induction s) (auto simp: un_Cons_plain)

lemma un_append:
  "s = [] \<or> last s \<noteq> CR \<or> t = [] \<or> hd t \<noteq> LF \<Longrightarrow>
     universal_newlines (s @ t) = universal_newlines s @ universal_newlines t"
proof (induction s rule: universal_newlines.induct)
  case 1
  then show ?case by simp
next
  case (2 c)
  then show ?case by (cases t) auto
next
  case (3 c d cs)
  then show ?case by (auto split: if_splits)
qed

lemma un_length: "length (universal_newlines s) \<le> length s"
  by (induction s rule: universal_newlines.induct) auto

lemma un_nonempty: "s \<noteq> [] \<Longrightarrow> universal_newlines s \<noteq> []"
  by (induction s rule: universal_newlines.induct) auto

lemma un_double_quotes:
  "universal_newlines (double_quotes s) = double_quotes (universal_newlines s)"
proof (induction s rule: universal_newlines.induct)
  case 1
  then show ?case by (simp add: double_quotes_def)
next
  case (2 c)
  then show ?case by (auto simp: double_quotes_def)
next
  case (3 c d cs)
  have dq: "double_quotes (x # xs) = (if x = CHR ''\"'' then [x, x] else [x]) @ double_quotes xs" for x xs
    by (simp add: double_quotes_def)
  show ?case
  proof (cases "c = CR")
    case True
    show ?thesis
    proof (cases "d = LF")
      case True
      with \<open>c = CR\<close> 3 show ?thesis by (simp add: dq)
    next
      case False
      with \<open>c = CR\<close> 3 show ?thesis
        by (cases "d = CHR ''\"''") (simp_all add: dq un_Cons_plain)
    qed
  next
    case False
    with 3 show ?thesis
      by (cases "c = CHR ''\"''") (simp_all add: dq un_Cons_plain)
  qed
qed

subsection \<open>Lines\<close>

lemma readlines_append:
  "s = [] \<or> last s = LF \<Longrightarrow> readlines (s @ t) = readlines s @ readlines t"
proof (induction s)
  case Nil
  then show ?case by simp
next
  case (Cons c s)
  show ?case
  proof (cases "s = []")
    case True
    with Cons.prems show ?thesis by simp
  next
    case False
    with Cons.prems have "last s = LF" by simp
    with Cons.IH have ih: "readlines (s @ t) = readlines s @ readlines t" by simp
    from False have "readlines s \<noteq> []" by (cases s) (auto split: list.splits)
    then show ?thesis
      by (auto simp: ih split: list.splits)
  qed
qed

lemma concat_readlines: "concat (readlines s) = s"
  by (induction s) (auto split: list.splits)

lemma readlines_nonempty: "s \<noteq> [] \<Longrightarrow> readlines s \<noteq> []"
  by (cases s) (auto split: list.splits)

lemma find_header_append:
  "\<forall>l\<in>set ls. \<not> prefix header_prefix (py_strip l) \<Longrightarrow>
   prefix header_prefix (py_strip h) \<Longrightarrow>
     find_header (ls @ h # ms) = Some (length ls)"
  by (induction ls) auto

subsection \<open>Lines and the character stream\<close>

lemma process_line_Cons:
  "process_line p (c # l) =
    (case parse_process_char p (Some c) of Inl e \<Rightarrow> Inl e | Inr q \<Rightarrow> process_line q l)"
  by (simp add: process_line_def split: sum.splits)

lemma process_line_Nil:
  "process_line p [] = parse_process_char p None"
  by (simp add: process_line_def split: sum.splits)

lemma reader_rows_run:
  "s = [] \<or> last s = LF \<Longrightarrow> reader_rows p (readlines s @ later) = run p s later"
proof (induction s arbitrary: p)
  case Nil
  then show ?case by simp
next
  case (Cons c s)
  show ?case
  proof (cases "c = LF")
    case True
    from Cons.prems have "s = [] \<or> last s = LF" by (auto split: if_splits)
    then have ih: "reader_rows q (readlines s @ later) = run q s later" for q
      by (rule Cons.IH)
    show ?thesis
      using True
      by (simp add: process_line_Cons process_line_Nil ih split: sum.splits)
  next
    case False
    with Cons.prems have s: "s \<noteq> []" "last s = LF" by (auto split: if_splits)
    then obtain l ls where ls: "readlines s = l # ls"
      using readlines_nonempty by (cases "readlines s") auto
    have ih: "reader_rows q (readlines s @ later) = run q s later" for q
      using s by (intro Cons.IH) simp
    show ?thesis
      using False ih by (simp add: ls process_line_Cons split: sum.splits)
  qed
qed

subsection \<open>Fields\<close>

lemma field_limit_pos: "0 < field_limit"
  by (simp add: field_limit_def)

lemma needs_quotes_Cons:
  "needs_quotes (c # f) \<longleftrightarrow> c = CHR '','' \<or> c = CHR ''\"'' \<or> c = CR \<or> c = LF \<or> needs_quotes f"
  by (auto simp: needs_quotes_def)

lemma needs_quotes_Nil: "\<not> needs_quotes []"
  by (simp add: needs_quotes_def)

lemma double_quotes_Cons:
  "double_quotes (c # g) = (if c = CHR ''\"'' then c # c # double_quotes g else c # double_quotes g)"
  by (simp add: double_quotes_def)

lemma double_quotes_Nil: "double_quotes [] = []"
  by (simp add: double_quotes_def)

lemma run_in_field:
  assumes "state p = IN_FIELD" "\<not> needs_quotes f" "length (cur_field p) + length f \<le> field_limit"
  shows "run p (f @ k) later = run (p \<lparr> cur_field := cur_field p @ f \<rparr>) k later"
  using assms
proof (induction f arbitrary: p)
  case Nil
  then show ?case by simp
next
  case (Cons c f)
  let ?q = "p \<lparr> cur_field := cur_field p @ [c] \<rparr>"
  from Cons.prems have c: "c \<noteq> CHR '',''" "c \<noteq> CR" "c \<noteq> LF" and f: "\<not> needs_quotes f"
    by (auto simp: needs_quotes_Cons)
  from Cons.prems have step: "parse_process_char p (Some c) = Inr ?q"
    using c by (simp add: parse_process_char_def is_newline_def parse_add_char_def)
  have "run ?q (f @ k) later = run (?q \<lparr> cur_field := cur_field ?q @ f \<rparr>) k later"
    using Cons.prems f by (intro Cons.IH) simp_all
  then show ?case
    using step c by simp
qed

lemma run_start_plain:
  assumes "state p = START_RECORD \<or> state p = START_FIELD" "cur_field p = []"
    and "f \<noteq> []" "\<not> needs_quotes f" "length f \<le> field_limit"
  shows "run p (f @ k) later = run (p \<lparr> state := IN_FIELD, cur_field := f \<rparr>) k later"
proof -
  from assms(3) obtain c f' where f: "f = c # f'" by (cases f) auto
  let ?q = "p \<lparr> state := IN_FIELD, cur_field := [c] \<rparr>"
  from assms(4) have c: "c \<noteq> CHR '',''" "c \<noteq> CR" "c \<noteq> LF" "c \<noteq> CHR ''\"''"
    and f': "\<not> needs_quotes f'"
    by (auto simp: needs_quotes_Cons f)
  have step: "parse_process_char p (Some c) = Inr ?q"
    using assms(1,2) c field_limit_pos
    by (auto simp: parse_process_char_def expect_field_def is_newline_def parse_add_char_def)
  have "run ?q (f' @ k) later = run (?q \<lparr> cur_field := cur_field ?q @ f' \<rparr>) k later"
    using assms(5) f' by (intro run_in_field) (simp_all add: f)
  then show ?thesis
    using step c by (simp add: f)
qed

lemma run_in_quoted:
  assumes "state p = IN_QUOTED_FIELD" "length (cur_field p) + length g \<le> field_limit"
  shows "run p (double_quotes g @ k) later = run (p \<lparr> cur_field := cur_field p @ g \<rparr>) k later"
  using assms
proof (induction g arbitrary: p)
  case Nil
  then show ?case by (simp add: double_quotes_Nil)
next
  case (Cons c g)
  let ?q = "p \<lparr> cur_field := cur_field p @ [c] \<rparr>"
  have ih: "run ?q (double_quotes g @ k) later = run (?q \<lparr> cur_field := cur_field ?q @ g \<rparr>) k later"
    using Cons.prems by (intro Cons.IH) simp_all
  show ?case
  proof (cases "c = CHR ''\"''")
    case True
    have 1: "parse_process_char p (Some (CHR ''\"'')) =
        Inr (p \<lparr> state := QUOTE_IN_QUOTED_FIELD \<rparr>)"
      using Cons.prems by (simp add: parse_process_char_def)
    have 2: "parse_process_char (p \<lparr> state := QUOTE_IN_QUOTED_FIELD \<rparr>) (Some (CHR ''\"'')) =
        Inr (p \<lparr> cur_field := cur_field p @ [CHR ''\"''] \<rparr>)"
      using Cons.prems by (simp add: parse_process_char_def parse_add_char_def)
    show ?thesis
      using True ih by (simp add: double_quotes_Cons 1 2)
  next
    case False
    have 1: "parse_process_char p (Some d) = Inr (p \<lparr> cur_field := cur_field p @ [d] \<rparr>)"
      if "d \<noteq> CHR ''\"''" for d
      using Cons.prems that by (simp add: parse_process_char_def parse_add_char_def)
    have 2: "parse_process_char (p \<lparr> cur_field := cur_field p @ [d] \<rparr>) None =
        Inr (p \<lparr> cur_field := cur_field p @ [d] \<rparr>)" for d
      using Cons.prems by (simp add: parse_process_char_def)
    show ?thesis
      using False ih Cons.prems(1) by (auto simp: double_quotes_Cons 1 2)
  qed
qed

lemma run_start_quoted:
  assumes "state p = START_RECORD \<or> state p = START_FIELD" "cur_field p = []"
    and "length g \<le> field_limit"
  shows "run p (CHR ''\"'' # double_quotes g @ CHR ''\"'' # k) later =
    run (p \<lparr> state := QUOTE_IN_QUOTED_FIELD, cur_field := g \<rparr>) k later"
proof -
  let ?q = "p \<lparr> state := IN_QUOTED_FIELD \<rparr>"
  have 1: "parse_process_char p (Some (CHR ''\"'')) = Inr ?q"
    using assms(1) by (auto simp: parse_process_char_def expect_field_def is_newline_def)
  have 2: "run ?q (double_quotes g @ CHR ''\"'' # k) later =
      run (p \<lparr> state := IN_QUOTED_FIELD, cur_field := g \<rparr>) (CHR ''\"'' # k) later"
    using run_in_quoted [of ?q g "CHR ''\"'' # k" later] assms by simp
  have 3: "parse_process_char (p \<lparr> state := IN_QUOTED_FIELD, cur_field := g \<rparr>) (Some (CHR ''\"'')) =
      Inr (p \<lparr> state := QUOTE_IN_QUOTED_FIELD, cur_field := g \<rparr>)"
    by (simp add: parse_process_char_def)
  show ?thesis
    by (simp add: 1 2 3)
qed

lemma un_write_field:
  "universal_newlines (write_field f) =
    (if needs_quotes f then CHR ''\"'' # double_quotes (universal_newlines f) @ [CHR ''\"''] else f)"
proof (cases "needs_quotes f")
  case True
  have "universal_newlines (double_quotes f @ [CHR ''\"'']) =
      universal_newlines (double_quotes f) @ universal_newlines [CHR ''\"'']"
    by (rule un_append) simp
  then show ?thesis
    using True by (simp add: write_field_def un_Cons_plain un_double_quotes)
next
  case False
  then have "CR \<notin> set f"
    by (auto simp: needs_quotes_def list_ex_iff)
  with False show ?thesis
    by (simp add: write_field_def un_no_CR)
qed

lemma run_field_comma:
  assumes "state p = START_RECORD \<or> state p = START_FIELD" "cur_field p = []"
    and "length (universal_newlines f) \<le> field_limit"
  shows "run p (universal_newlines (write_field f) @ CHR '','' # k) later =
    run (p \<lparr> state := START_FIELD, rec_fields := rec_fields p @ [universal_newlines f] \<rparr>) k later"
proof (cases "needs_quotes f")
  case True
  let ?q = "p \<lparr> state := QUOTE_IN_QUOTED_FIELD, cur_field := universal_newlines f \<rparr>"
  have "parse_process_char ?q (Some (CHR '','')) =
      Inr (p \<lparr> state := START_FIELD, rec_fields := rec_fields p @ [universal_newlines f] \<rparr>)"
    using assms(2) by (simp add: parse_process_char_def parse_save_field_def)
  then show ?thesis
    using True run_start_quoted [OF assms(1,2,3)] by (simp add: un_write_field)
next
  case False
  then have plain: "universal_newlines f = f"
    using un_write_field [of f] by (simp add: write_field_def)
  show ?thesis
  proof (cases "f = []")
    case True
    have "parse_process_char p (Some (CHR '','')) =
        Inr (p \<lparr> state := START_FIELD, rec_fields := rec_fields p @ [[]] \<rparr>)"
      using assms(1,2)
      by (auto simp: parse_process_char_def expect_field_def is_newline_def parse_save_field_def)
    then show ?thesis
      using True by (simp add: write_field_def needs_quotes_Nil)
  next
    case nonempty: False
    let ?q = "p \<lparr> state := IN_FIELD, cur_field := f \<rparr>"
    have "parse_process_char ?q (Some (CHR '','')) =
        Inr (p \<lparr> state := START_FIELD, rec_fields := rec_fields p @ [f] \<rparr>)"
      using assms(2) by (simp add: parse_process_char_def is_newline_def parse_save_field_def)
    moreover have "run p (f @ CHR '','' # k) later = run ?q (CHR '','' # k) later"
      using assms False nonempty by (intro run_start_plain) (simp_all add: plain)
    ultimately show ?thesis
      using False by (simp add: un_write_field plain)
  qed
qed

lemma run_field_end:
  assumes "state p = START_FIELD" "cur_field p = []"
    and "length (universal_newlines f) \<le> field_limit"
  shows "run p (universal_newlines (write_field f) @ LF # k) later =
    map_sum id (\<lambda>rows. (rec_fields p @ [universal_newlines f]) # rows) (run parse_reset k later)"
proof -
  have fin: "run q (LF # k) later =
      map_sum id (\<lambda>rows. (rec_fields q @ [cur_field q]) # rows) (run parse_reset k later)"
    if "state q = START_FIELD \<or> state q = IN_FIELD \<or> state q = QUOTE_IN_QUOTED_FIELD" for q
    using that
    by (auto simp: parse_process_char_def expect_field_def is_newline_def end_of_field_def
        parse_save_field_def)
  have st: "state p = START_RECORD \<or> state p = START_FIELD"
    using assms(1) by simp
  show ?thesis
  proof (cases "needs_quotes f")
    case True
    let ?q = "p \<lparr> state := QUOTE_IN_QUOTED_FIELD, cur_field := universal_newlines f \<rparr>"
    have "run p (universal_newlines (write_field f) @ LF # k) later = run ?q (LF # k) later"
      using True run_start_quoted [OF st assms(2,3)] by (simp add: un_write_field)
    also have "\<dots> = map_sum id (\<lambda>rows. (rec_fields ?q @ [cur_field ?q]) # rows) (run parse_reset k later)"
      by (rule fin) simp
    finally show ?thesis by simp
  next
    case False
    then have plain: "universal_newlines f = f"
      using un_write_field [of f] by (simp add: write_field_def)
    show ?thesis
    proof (cases "f = []")
      case True
      then show ?thesis
        using fin [of p] assms(1,2) by (simp add: write_field_def needs_quotes_Nil del: run.simps)
    next
      case nonempty: False
      let ?q = "p \<lparr> state := IN_FIELD, cur_field := f \<rparr>"
      have "run p (f @ LF # k) later = run ?q (LF # k) later"
        using assms False nonempty st by (intro run_start_plain) (simp_all add: plain)
      also have "\<dots> = map_sum id (\<lambda>rows. (rec_fields ?q @ [cur_field ?q]) # rows) (run parse_reset k later)"
        by (rule fin) simp
      finally show ?thesis
        using False by (simp add: un_write_field plain)
    qed
  qed
qed

subsection \<open>Rows\<close>

lemma un_join:
  "universal_newlines (join '','' (map write_field r)) =
     join '','' (map (\<lambda>f. universal_newlines (write_field f)) r)"
proof (induction r rule: induct_list012)
  case 1
  then show ?case by simp
next
  case (2 f)
  then show ?case by simp
next
  case (3 f g r)
  have "universal_newlines (write_field f @ CHR '','' # join '','' (map write_field (g # r))) =
      universal_newlines (write_field f) @
      universal_newlines (CHR '','' # join '','' (map write_field (g # r)))"
    by (rule un_append) simp
  with 3 show ?case
    by (simp add: un_Cons_plain)
qed

lemma un_terminator: "universal_newlines (b @ [CR, LF]) = universal_newlines b @ [LF]"
proof -
  have "universal_newlines (b @ [CR, LF]) = universal_newlines b @ universal_newlines [CR, LF]"
    by (rule un_append) simp
  then show ?thesis by simp
qed

lemma un_writerow:
  "r \<noteq> [[]] \<Longrightarrow> universal_newlines (writerow r) =
     join '','' (map (\<lambda>f. universal_newlines (write_field f)) r) @ [LF]"
  by (simp add: writerow_def un_terminator un_join)

lemma un_writerow_last: "\<exists>b. universal_newlines (writerow r) = b @ [LF]"
  by (simp add: writerow_def un_terminator)

lemma un_rows:
  "universal_newlines (concat (map writerow rows) @ t) =
     concat (map (\<lambda>r. universal_newlines (writerow r)) rows) @ universal_newlines t"
proof (induction rows)
  case Nil
  then show ?case by simp
next
  case (Cons r rows)
  have "last (writerow r) \<noteq> CR"
    by (simp add: writerow_def)
  then have "universal_newlines (writerow r @ (concat (map writerow rows) @ t)) =
      universal_newlines (writerow r) @ universal_newlines (concat (map writerow rows) @ t)"
    by (intro un_append) simp
  with Cons show ?case by simp
qed

lemma rows_text_ends:
  "concat (map (\<lambda>r. universal_newlines (writerow r)) rows) = [] \<or>
   last (concat (map (\<lambda>r. universal_newlines (writerow r)) rows)) = LF"
proof (induction rows rule: rev_induct)
  case Nil
  then show ?case by simp
next
  case (snoc r rows)
  obtain b where "universal_newlines (writerow r) = b @ [LF]"
    using un_writerow_last by blast
  then show ?case by simp
qed

lemma run_fields:
  assumes "state p = START_FIELD" "cur_field p = []" "fs \<noteq> []"
    and "\<forall>f\<in>set fs. length (universal_newlines f) \<le> field_limit"
  shows "run p (join '','' (map (\<lambda>f. universal_newlines (write_field f)) fs) @ LF # k) later =
    map_sum id (\<lambda>rows. (rec_fields p @ map universal_newlines fs) # rows) (run parse_reset k later)"
  using assms
proof (induction fs arbitrary: p rule: induct_list012)
  case 1
  then show ?case by simp
next
  case (2 f)
  then show ?case
    using run_field_end [of p f k later] by (simp add: id_def)
next
  case (3 f g fs)
  let ?p = "p \<lparr> state := START_FIELD, rec_fields := rec_fields p @ [universal_newlines f] \<rparr>"
  have "run p (universal_newlines (write_field f) @ CHR '','' #
        (join '','' (map (\<lambda>f. universal_newlines (write_field f)) (g # fs)) @ LF # k)) later =
      run ?p (join '','' (map (\<lambda>f. universal_newlines (write_field f)) (g # fs)) @ LF # k) later"
    using "3.prems" by (intro run_field_comma) simp_all
  moreover have "run ?p (join '','' (map (\<lambda>f. universal_newlines (write_field f)) (g # fs)) @ LF # k) later =
      map_sum id (\<lambda>rows. (rec_fields ?p @ map universal_newlines (g # fs)) # rows)
        (run parse_reset k later)"
    using "3.prems" by (intro "3.IH"(2)) simp_all
  ultimately show ?case by (simp add: id_def)
qed

lemma run_row:
  assumes "2 \<le> length r" "\<forall>f\<in>set r. length (universal_newlines f) \<le> field_limit"
  shows "run parse_reset (universal_newlines (writerow r) @ k) later =
    map_sum id (\<lambda>rows. map universal_newlines r # rows) (run parse_reset k later)"
proof -
  from assms(1) obtain f g gs where "r = f # g # gs"
    by (auto simp: numeral_2_eq_2 Suc_le_length_iff)
  then obtain fs where r: "r = f # fs" "fs \<noteq> []" and fs: "fs = g # gs"
    by simp
  let ?p = "parse_reset \<lparr> state := START_FIELD, rec_fields := rec_fields parse_reset @ [universal_newlines f] \<rparr>"
  have shape: "universal_newlines (writerow r) @ k =
      universal_newlines (write_field f) @ CHR '','' #
        (join '','' (map (\<lambda>f. universal_newlines (write_field f)) fs) @ LF # k)"
    by (simp add: un_writerow r fs)
  have "run parse_reset (universal_newlines (writerow r) @ k) later =
      run ?p (join '','' (map (\<lambda>f. universal_newlines (write_field f)) fs) @ LF # k) later"
    unfolding shape using assms(2) by (intro run_field_comma) (simp_all add: parse_reset_def r)
  also have "\<dots> = map_sum id (\<lambda>rows. (rec_fields ?p @ map universal_newlines fs) # rows)
        (run parse_reset k later)"
    using assms(2) r by (intro run_fields) (simp_all add: parse_reset_def)
  finally show ?thesis
    by (simp add: r parse_reset_def)
qed

lemma run_rows:
  assumes "\<forall>r\<in>set rows. 2 \<le> length r \<and> (\<forall>f\<in>set r. length (universal_newlines f) \<le> field_limit)"
  shows "run parse_reset (concat (map (\<lambda>r. universal_newlines (writerow r)) rows)) [] =
    Inr (map (map universal_newlines) rows)"
  using assms
proof (induction rows)
  case Nil
  then show ?case by (simp add: parse_reset_def)
next
  case (Cons r rows)
  then show ?case by (simp add: run_row)
qed

subsection \<open>The whole file\<close>

lemma header_line:
  "universal_newlines (writerow headers) =
     ''Author,Mod Name,Version,Enabled,Description,Website'' @ [LF]"
  by (simp add: un_writerow headers_def un_write_field needs_quotes_def CR_def LF_def)

lemma header_line_found:
  "prefix header_prefix (py_strip (''Author,Mod Name,Version,Enabled,Description,Website'' @ [LF]))"
  by code_simp

lemma header_line_single:
  "readlines (''Author,Mod Name,Version,Enabled,Description,Website'' @ [LF]) =
     [''Author,Mod Name,Version,Enabled,Description,Website'' @ [LF]]"
  by code_simp

lemma un_headers: "map universal_newlines headers = headers"
  by (simp add: headers_def CR_def un_no_CR)

lemma headers_within_limit: "\<forall>f\<in>set headers. length (universal_newlines f) \<le> field_limit"
  using un_headers by (simp add: headers_def field_limit_def CR_def un_no_CR)

lemma load_export:
  assumes pre: "\<forall>l\<in>set (readlines (universal_newlines (concat (map writerow (preamble_rows stats))))).
      \<not> prefix header_prefix (py_strip l)"
    and lim: "\<forall>m\<in>set mods_list. \<forall>f\<in>set (mod_row m). length f \<le> field_limit"
  shows "load_csv_for_comparison file_name (export_to_csv mods_list stats) =
    Inr ([], foldl add_row [] (map row_of mods_list))"
proof -
  define P where "P = universal_newlines (concat (map writerow (preamble_rows stats)))"
  define H where "H = ''Author,Mod Name,Version,Enabled,Description,Website'' @ [LF]"
  define D where "D = concat (map (\<lambda>r. universal_newlines (writerow r)) (map mod_row mods_list))"
  have P_rows: "P = concat (map (\<lambda>r. universal_newlines (writerow r)) (preamble_rows stats))"
    using un_rows [of "preamble_rows stats" "[]"] by (simp add: P_def)
  have HD: "H @ D = concat (map (\<lambda>r. universal_newlines (writerow r)) (headers # map mod_row mods_list))"
    by (simp add: H_def D_def header_line)
  have content: "universal_newlines (export_to_csv mods_list stats) = P @ H @ D"
  proof -
    have "universal_newlines (concat (map writerow (headers # map mod_row mods_list)) @ []) = H @ D"
      unfolding un_rows HD by simp
    then show ?thesis
      using un_rows [of "preamble_rows stats" "concat (map writerow (headers # map mod_row mods_list))"]
      by (simp add: export_to_csv_def P_rows)
  qed
  have P_end: "P = [] \<or> last P = LF"
    unfolding P_rows by (rule rows_text_ends)
  have D_end: "D = [] \<or> last D = LF"
    unfolding D_def by (rule rows_text_ends)
  have HD_end: "H @ D = [] \<or> last (H @ D) = LF"
    using D_end by (auto simp: H_def)
  have "readlines (H @ D) = readlines H @ readlines D"
    by (rule readlines_append) (simp add: H_def)
  moreover have "readlines H = [H]"
    unfolding H_def by (rule header_line_single)
  ultimately have H_lines: "readlines (H @ D) = H # readlines D"
    by simp
  have lines: "readlines (P @ H @ D) = readlines P @ H # readlines D"
    using readlines_append [OF P_end, of "H @ D"] by (simp add: H_lines)
  have found: "find_header (readlines P @ H # readlines D) = Some (length (readlines P))"
    using pre header_line_found by (intro find_header_append) (simp_all add: P_def H_def)
  have rest_text: "concat (drop (length (readlines P)) (readlines P @ H # readlines D)) = H @ D"
    by (simp add: concat_readlines)
  have rows_ok: "\<forall>r\<in>set (headers # map mod_row mods_list).
      2 \<le> length r \<and> (\<forall>f\<in>set r. length (universal_newlines f) \<le> field_limit)"
  proof
    fix r assume "r \<in> set (headers # map mod_row mods_list)"
    then consider "r = headers" | m where "m \<in> set mods_list" "r = mod_row m"
      by auto
    then show "2 \<le> length r \<and> (\<forall>f\<in>set r. length (universal_newlines f) \<le> field_limit)"
    proof cases
      case 1
      then show ?thesis
        using headers_within_limit by (simp add: headers_def)
    next
      case 2
      have "length (universal_newlines f) \<le> field_limit" if "f \<in> set (mod_row m)" for f
        using lim 2(1) that un_length [of f] by (meson le_trans)
      with 2 show ?thesis
        by (simp add: mod_row_def)
    qed
  qed
  have "csv_reader (readlines (H @ D)) = run parse_reset (H @ D) []"
    using reader_rows_run [OF HD_end, of parse_reset "[]"] by (simp add: csv_reader_def)
  also have "\<dots> = Inr (map (map universal_newlines) (headers # map mod_row mods_list))"
    unfolding HD using rows_ok by (rule run_rows)
  finally have parsed: "csv_reader (readlines (H @ D)) =
      Inr (headers # map (\<lambda>m. map universal_newlines (mod_row m)) mods_list)"
    by (simp add: un_headers comp_def)
  have "filter (\<lambda>r. r \<noteq> []) (map (\<lambda>m. map universal_newlines (mod_row m)) mods_list) =
      map (\<lambda>m. map universal_newlines (mod_row m)) mods_list"
    by (simp add: filter_map comp_def mod_row_def)
  then have dict: "DictReader (readlines (H @ D)) = Inr (map row_of mods_list)"
    by (simp add: DictReader_def parsed row_of_def comp_def)
  show ?thesis
    by (simp add: load_csv_for_comparison_def content lines found concat_readlines dict)
qed

subsection \<open>The mapping\<close>

lemma dict_set_fresh: "k \<notin> fst ` set d \<Longrightarrow> dict_set k v d = d @ [(k, v)]"
  by (induction d) auto

lemma add_row_row_of:
  assumes "author m \<noteq> []" "name m \<noteq> []" "CR \<notin> set (author m)" "CR \<notin> set (name m)"
  shows "add_row acc (row_of m) = dict_set (key_of m) (row_of m) acc"
  using assms by (simp add: add_row_def row_of_cells un_no_CR key_of_def)

lemma foldl_add_rows:
  assumes "\<forall>m\<in>set ms. author m \<noteq> [] \<and> name m \<noteq> [] \<and> CR \<notin> set (author m) \<and> CR \<notin> set (name m)"
    and "distinct (map key_of ms)" "fst ` set acc \<inter> key_of ` set ms = {}"
  shows "foldl add_row acc (map row_of ms) = acc @ map (\<lambda>m. (key_of m, row_of m)) ms"
  using assms
proof (induction ms arbitrary: acc)
  case Nil
  then show ?case by simp
next
  case (Cons m ms)
  have 1: "add_row acc (row_of m) = acc @ [(key_of m, row_of m)]"
    using Cons.prems by (simp add: add_row_row_of dict_set_fresh)
  have "foldl add_row (acc @ [(key_of m, row_of m)]) (map row_of ms) =
      (acc @ [(key_of m, row_of m)]) @ map (\<lambda>m. (key_of m, row_of m)) ms"
    using Cons.prems by (intro Cons.IH) auto
  with 1 show ?case by simp
qed

subsection \<open>The statistics section\<close>

text \<open>
  When no field of the statistics section holds a line break, each of its rows is one line
  of the file. Such a line starts with the header prefix only when it is the line of a
  newest or oldest record whose name, without leading whitespace, is \<^verbatim>\<open>Author\<close>: the fixed
  labels start with other characters, and the second field of a top author's row starts
  with a digit.
\<close>

lemma set_double_quotes: "set (double_quotes s) = set s"
  by (induction s) (auto simp: double_quotes_Cons double_quotes_Nil)

lemma write_field_no_newline:
  "CR \<notin> set f \<Longrightarrow> LF \<notin> set f \<Longrightarrow> CR \<notin> set (write_field f) \<and> LF \<notin> set (write_field f)"
  by (simp add: write_field_def set_double_quotes)

lemma join_no_char:
  "c \<notin> set sep \<Longrightarrow> \<forall>x\<in>set xs. c \<notin> set x \<Longrightarrow> c \<notin> set (join sep xs)"
  by (induction xs rule: induct_list012) auto

lemma plain_row_line:
  assumes "plain_row r"
  shows "\<exists>b. universal_newlines (writerow r) = b @ [LF] \<and> LF \<notin> set b"
proof -
  define b where "b = (if r = [[]] then [CHR ''\"'', CHR ''\"''] else join '','' (map write_field r))"
  have "CR \<notin> set b \<and> LF \<notin> set b"
  proof (cases "r = [[]]")
    case True
    then show ?thesis by (simp add: b_def)
  next
    case False
    have "c \<notin> set (join '','' (map write_field r))" if "c = CR \<or> c = LF" for c
      using that assms by (intro join_no_char) (auto simp: plain_row_def write_field_no_newline)
    with False show ?thesis by (simp add: b_def)
  qed
  moreover have "universal_newlines (writerow r) = universal_newlines b @ [LF]"
    by (simp add: writerow_def b_def un_terminator)
  ultimately show ?thesis
    by (auto simp: un_no_CR)
qed

lemma readlines_line: "LF \<notin> set b \<Longrightarrow> readlines (b @ LF # t) = (b @ [LF]) # readlines t"
  by (induction b) auto

lemma readlines_plain_rows:
  "\<forall>r\<in>set rows. plain_row r \<Longrightarrow>
     readlines (concat (map (\<lambda>r. universal_newlines (writerow r)) rows)) =
       map (\<lambda>r. universal_newlines (writerow r)) rows"
proof (induction rows)
  case Nil
  then show ?case by simp
next
  case (Cons r rows)
  then obtain b where b: "universal_newlines (writerow r) = b @ [LF]" "LF \<notin> set b"
    using plain_row_line [of r] by auto
  with Cons show ?case
    by (simp add: readlines_line)
qed

lemma rstrip_prefix: "prefix (rev (dropWhile P (rev x))) x"
proof -
  have "rev x = takeWhile P (rev x) @ dropWhile P (rev x)" by simp
  then have "x = rev (dropWhile P (rev x)) @ rev (takeWhile P (rev x))"
    by (metis rev_append rev_rev_ident)
  then show ?thesis
    by (metis prefixI)
qed

lemma strip_prefix:
  "prefix p (py_strip s) \<Longrightarrow> prefix p (dropWhile is_space s)"
  unfolding py_strip_def strip_chars_def
  using rstrip_prefix [of is_space "dropWhile is_space s"] by (rule prefix_order.trans [rotated])

lemma no_header_first_char:
  assumes "s = c # t" "\<not> is_space c" "c \<noteq> CHR ''A''"
  shows "\<not> prefix header_prefix (py_strip s)"
proof
  assume "prefix header_prefix (py_strip s)"
  then have "prefix header_prefix (dropWhile is_space s)" by (rule strip_prefix)
  with assms show False by (simp add: header_prefix_def)
qed

lemma line_first_char:
  assumes "f \<noteq> []"
  shows "\<exists>t. universal_newlines (writerow (f # fs)) = (if needs_quotes f then CHR ''\"'' else hd f) # t"
proof -
  have "\<exists>t. universal_newlines (write_field f) = (if needs_quotes f then CHR ''\"'' else hd f) # t"
    using assms by (cases f) (auto simp: un_write_field)
  moreover have "\<exists>t. universal_newlines (writerow (f # fs)) = universal_newlines (write_field f) @ t"
    using assms by (cases fs) (auto simp: un_writerow)
  ultimately show ?thesis by auto
qed

lemma no_header_label:
  assumes "f \<noteq> []" "\<not> is_space (hd f)" "hd f \<noteq> CHR ''A''"
  shows "\<not> prefix header_prefix (py_strip (universal_newlines (writerow (f # fs))))"
proof -
  obtain t where t: "universal_newlines (writerow (f # fs)) = (if needs_quotes f then CHR ''\"'' else hd f) # t"
    using line_first_char [OF assms(1)] by blast
  have "\<not> is_space (CHR ''\"'')" by (simp add: is_space_def)
  with assms show ?thesis
    by (intro no_header_first_char [OF t]) auto
qed

lemma no_header_blank:
  "\<not> prefix header_prefix (py_strip (universal_newlines (writerow [''''])))"
  by code_simp


lemma prefix_upto_comma:
  "CHR '','' \<notin> set u \<Longrightarrow> CHR '','' \<notin> set x \<Longrightarrow> prefix (u @ CHR '','' # v) (x @ CHR '','' # y) \<Longrightarrow>
     x = u \<and> prefix v y"
proof (induction u arbitrary: x)
  case Nil
  then show ?case by (cases x) auto
next
  case (Cons a u)
  then show ?case by (cases x) auto
qed

lemma plain_no_comma: "\<not> needs_quotes f \<Longrightarrow> CHR '','' \<notin> set f"
  by (induction f) (auto simp: needs_quotes_Cons)

lemma header_plain_first_field:
  assumes "\<not> needs_quotes f"
    and "prefix header_prefix (py_strip (universal_newlines (writerow (f # g # gs))))"
  shows "dropWhile is_space f = ''Author'' \<and>
         (\<exists>t. prefix ''Mod Name,Version'' (universal_newlines (write_field g) @ t))"
proof -
  obtain t where line: "universal_newlines (writerow (f # g # gs)) =
      f @ CHR '','' # universal_newlines (write_field g) @ t"
    using assms(1) by (cases gs) (auto simp: un_writerow un_write_field)
  have "dropWhile is_space (f @ CHR '','' # universal_newlines (write_field g) @ t) =
      dropWhile is_space f @ CHR '','' # universal_newlines (write_field g) @ t"
    by (simp add: dropWhile_append is_space_def dropWhile_eq_Nil_conv [THEN iffD2])
  moreover have "prefix header_prefix (dropWhile is_space (universal_newlines (writerow (f # g # gs))))"
    using assms(2) by (rule strip_prefix)
  ultimately have "prefix (''Author'' @ CHR '','' # ''Mod Name,Version'')
      (dropWhile is_space f @ CHR '','' # universal_newlines (write_field g) @ t)"
    by (simp add: line header_prefix_def)
  moreover have "CHR '','' \<notin> set (dropWhile is_space f)"
    using plain_no_comma [OF assms(1)] by (auto dest: set_dropWhileD)
  ultimately have "dropWhile is_space f = ''Author'' \<and>
      prefix ''Mod Name,Version'' (universal_newlines (write_field g) @ t)"
    by (intro prefix_upto_comma) simp_all
  then show ?thesis by blast
qed

lemma no_header_quoted_first_field:
  assumes "needs_quotes f"
  shows "\<not> prefix header_prefix (py_strip (universal_newlines (writerow (f # fs))))"
proof -
  from assms have "f \<noteq> []" by (auto simp: needs_quotes_Nil)
  then obtain t where t: "universal_newlines (writerow (f # fs)) = CHR ''\"'' # t"
    using line_first_char [of f fs] assms by auto
  show ?thesis
    by (rule no_header_first_char [OF t]) (simp_all add: is_space_def)
qed

lemma no_header_mod_line:
  assumes "dropWhile is_space (name m) \<noteq> ''Author''"
  shows "\<not> prefix header_prefix (py_strip (universal_newlines (writerow (mod_line m))))"
proof (cases "needs_quotes (name m)")
  case True
  then show ?thesis by (simp add: mod_line_def no_header_quoted_first_field)
next
  case False
  with assms show ?thesis
    unfolding mod_line_def using header_plain_first_field [of "name m" "author m" "[version m]"] by blast
qed

lemma str_nat_first: "\<exists>c t. str_nat n = c # t \<and> is_digit c"
  using str_nat_decimal [of n] by (cases "str_nat n") (auto simp: is_decimal_def)

lemma no_header_author_line:
  "\<not> prefix header_prefix (py_strip (universal_newlines (writerow [a, str_nat n @ '' mods''])))"
proof (cases "needs_quotes a")
  case True
  then show ?thesis by (simp add: no_header_quoted_first_field)
next
  case False
  obtain c t where c: "str_nat n = c # t" "is_digit c"
    using str_nat_first by blast
  then have "c \<noteq> CHR ''M''" by (auto simp: is_digit_def)
  then have "\<not> prefix ''Mod Name,Version'' (universal_newlines (write_field (str_nat n @ '' mods'')) @ u)" for u
    using c by (simp add: un_write_field)
  with False show ?thesis
    using header_plain_first_field [of a "str_nat n @ '' mods''" "[]"] by blast
qed


lemma str_nat_no_newline: "CR \<notin> set (str_nat n) \<and> LF \<notin> set (str_nat n)"
  using str_nat_decimal [of n] by (auto simp: is_decimal_def list_all_iff is_digit_def CR_def LF_def)

lemma decimal_no_newline: "CR \<notin> set (decimal i) \<and> LF \<notin> set (decimal i)"
  using str_nat_no_newline by (simp add: decimal_def CR_def LF_def)

lemma preamble_header_free:
  assumes "CR \<notin> set (profile_name stats) \<and> LF \<notin> set (profile_name stats)"
    and "CR \<notin> set (export_date stats) \<and> LF \<notin> set (export_date stats)"
    and "\<forall>p\<in>set (top_authors stats). CR \<notin> set (fst p) \<and> LF \<notin> set (fst p)"
    and "\<forall>m\<in>set (newest_mods stats) \<union> set (oldest_mods stats).
           CR \<notin> set (name m) \<and> LF \<notin> set (name m) \<and> CR \<notin> set (author m) \<and> LF \<notin> set (author m) \<and>
           CR \<notin> set (version m) \<and> LF \<notin> set (version m) \<and> dropWhile is_space (name m) \<noteq> ''Author''"
  shows "\<forall>l\<in>set (readlines (universal_newlines (concat (map writerow (preamble_rows stats))))).
           \<not> prefix header_prefix (py_strip l)"
proof -
  have plain: "\<forall>r\<in>set (preamble_rows stats). plain_row r"
    using assms decimal_no_newline str_nat_no_newline
    by (auto simp: preamble_rows_def plain_row_def mod_line_def CR_def LF_def) force+
  have each: "\<forall>r\<in>set (preamble_rows stats).
      \<not> prefix header_prefix (py_strip (universal_newlines (writerow r)))"
    using assms(4)
    by (auto simp: preamble_rows_def no_header_label no_header_blank no_header_author_line
        no_header_mod_line is_space_def)
  have "universal_newlines (concat (map writerow (preamble_rows stats))) =
      concat (map (\<lambda>r. universal_newlines (writerow r)) (preamble_rows stats))"
    using un_rows [of "preamble_rows stats" "[]"] by simp
  then have "readlines (universal_newlines (concat (map writerow (preamble_rows stats)))) =
      map (\<lambda>r. universal_newlines (writerow r)) (preamble_rows stats)"
    using plain by (simp add: readlines_plain_rows)
  with each show ?thesis by simp
qed


lemma most_common_keys: "p \<in> set (most_common n (Counter xs)) \<Longrightarrow> fst p \<in> set xs"
proof -
  assume "p \<in> set (most_common n (Counter xs))"
  then have "p \<in> set (Counter xs)"
    by (auto simp: most_common_def dest: in_set_takeD)
  then show ?thesis
    by (auto simp: Counter_tabulated)
qed

lemma statistics_header_free:
  assumes "CR \<notin> set profile \<and> LF \<notin> set profile"
    and "CR \<notin> set now \<and> LF \<notin> set now"
    and "\<forall>m\<in>set mods_list.
           CR \<notin> set (name m) \<and> LF \<notin> set (name m) \<and> CR \<notin> set (author m) \<and> LF \<notin> set (author m) \<and>
           CR \<notin> set (version m) \<and> LF \<notin> set (version m) \<and> dropWhile is_space (name m) \<noteq> ''Author''"
  shows "\<forall>l\<in>set (readlines (universal_newlines (concat (map writerow
           (preamble_rows (calculate_statistics mods_list profile now)))))).
           \<not> prefix header_prefix (py_strip l)"
proof (rule preamble_header_free)
  let ?stats = "calculate_statistics mods_list profile now"
  show "CR \<notin> set (profile_name ?stats) \<and> LF \<notin> set (profile_name ?stats)"
    using assms(1) by (simp add: calculate_statistics_def Let_def)
  show "CR \<notin> set (export_date ?stats) \<and> LF \<notin> set (export_date ?stats)"
    using assms(2) by (simp add: calculate_statistics_def Let_def)
  show "\<forall>p\<in>set (top_authors ?stats). CR \<notin> set (fst p) \<and> LF \<notin> set (fst p)"
  proof
    fix p assume "p \<in> set (top_authors ?stats)"
    then have "fst p \<in> set (map author mods_list)"
      by (intro most_common_keys [of p 5]) (simp add: calculate_statistics_def Let_def)
    with assms(3) show "CR \<notin> set (fst p) \<and> LF \<notin> set (fst p)" by auto
  qed
  have "set (newest_mods ?stats) \<union> set (oldest_mods ?stats) \<subseteq> set mods_list"
    by (auto simp: calculate_statistics_def Let_def dest: in_set_takeD in_set_dropD)
  with assms(3) show "\<forall>m\<in>set (newest_mods ?stats) \<union> set (oldest_mods ?stats).
      CR \<notin> set (name m) \<and> LF \<notin> set (name m) \<and> CR \<notin> set (author m) \<and> LF \<notin> set (author m) \<and>
      CR \<notin> set (version m) \<and> LF \<notin> set (version m) \<and> dropWhile is_space (name m) \<noteq> ''Author''"
    by blast
qed


subsection \<open>The round trip\<close>

text \<open>Two concrete snapshots: their statistics, and their statistics sections.\<close>

lemma example_stats_distinct:
  "calculate_statistics
      [example_mod ''A'' ''X'' ''1.0.0'' ''Yes'', example_mod ''B'' ''Y'' ''2.0.0'' ''No'']
      ''Default'' ''2024-01-01 10:00:00'' =
    \<lparr> profile_name = ''Default'', export_date = ''2024-01-01 10:00:00'', total_mods = 2,
      enabled_mods = 1, disabled_mods = 1, unique_authors = 2,
      top_authors = [(''A'', 1), (''B'', 1)],
      newest_mods = [example_mod ''B'' ''Y'' ''2.0.0'' ''No'', example_mod ''A'' ''X'' ''1.0.0'' ''Yes''],
      oldest_mods = [example_mod ''A'' ''X'' ''1.0.0'' ''Yes'', example_mod ''B'' ''Y'' ''2.0.0'' ''No''] \<rparr>"
  by code_simp

lemma example_preamble_distinct:
  "\<forall>l\<in>set (readlines (universal_newlines (concat (map writerow (preamble_rows
      (calculate_statistics
         [example_mod ''A'' ''X'' ''1.0.0'' ''Yes'', example_mod ''B'' ''Y'' ''2.0.0'' ''No'']
         ''Default'' ''2024-01-01 10:00:00'')))))).
     \<not> prefix header_prefix (py_strip l)"
  unfolding example_stats_distinct by code_simp

lemma example_stats_same:
  "calculate_statistics
      [example_mod ''A'' ''X'' ''1.0.0'' ''Yes'', example_mod ''A'' ''X'' ''2.0.0'' ''No'']
      ''Default'' ''2024-01-01 10:00:00'' =
    \<lparr> profile_name = ''Default'', export_date = ''2024-01-01 10:00:00'', total_mods = 2,
      enabled_mods = 1, disabled_mods = 1, unique_authors = 1,
      top_authors = [(''A'', 2)],
      newest_mods = [example_mod ''A'' ''X'' ''2.0.0'' ''No'', example_mod ''A'' ''X'' ''1.0.0'' ''Yes''],
      oldest_mods = [example_mod ''A'' ''X'' ''1.0.0'' ''Yes'', example_mod ''A'' ''X'' ''2.0.0'' ''No''] \<rparr>"
  by code_simp

lemma example_preamble_same:
  "\<forall>l\<in>set (readlines (universal_newlines (concat (map writerow (preamble_rows
      (calculate_statistics
         [example_mod ''A'' ''X'' ''1.0.0'' ''Yes'', example_mod ''A'' ''X'' ''2.0.0'' ''No'']
         ''Default'' ''2024-01-01 10:00:00'')))))).
     \<not> prefix header_prefix (py_strip l)"
  unfolding example_stats_same by code_simp

lemma example_fields:
  "\<forall>m\<in>set [example_mod a n v e, example_mod a' n' v' e'].
     \<forall>f\<in>set (mod_row m). length f \<le> field_limit"
  if "length a \<le> 10" "length n \<le> 10" "length v \<le> 10" "length e \<le> 10"
     "length a' \<le> 10" "length n' \<le> 10" "length v' \<le> 10" "length e' \<le> 10"
  using that by (simp add: mod_row_def example_mod_def field_limit_def)

text \<open>
  Claim C1 (round trip), as the code has it. Take canonical records with non-empty author
  and name whose keys \<^verbatim>\<open>author:name\<close> are pairwise different, whose author, name, version
  and enabled fields hold no carriage return, and whose fields stay within the field size
  limit of the \<^verbatim>\<open>csv\<close> module; write them with \<^verbatim>\<open>export_to_csv\<close>, where no line of the
  statistics section, stripped, starts with \<^verbatim>\<open>Author,Mod Name,Version\<close>. Then
  \<^verbatim>\<open>load_csv_for_comparison\<close> returns, without a warning, a mapping with as many entries as
  there are records, and the entry under each record's key holds the record's author,
  name, version and enabled value. Description and website may hold any characters.
  For the statistics \<^verbatim>\<open>calculate_statistics\<close> computes, the condition on the statistics
  section holds when profile name, date, and the records' names, authors and versions
  hold no line break and no name, without leading whitespace, is \<^verbatim>\<open>Author\<close>
  (lemma \<open>statistics_header_free\<close>).
\<close>

theorem export_load_roundtrip:
  assumes "\<forall>m\<in>set mods_list. author m \<noteq> [] \<and> name m \<noteq> []"
    and "distinct (map key_of mods_list)"
    and "\<forall>m\<in>set mods_list. CR \<notin> set (author m) \<and> CR \<notin> set (name m) \<and>
           CR \<notin> set (version m) \<and> CR \<notin> set (enabled m)"
    and "\<forall>m\<in>set mods_list. \<forall>f\<in>set (mod_row m). length f \<le> field_limit"
    and "\<forall>l\<in>set (readlines (universal_newlines (concat (map writerow (preamble_rows stats))))).
           \<not> prefix header_prefix (py_strip l)"
  shows "\<exists>snapshot. load_csv_for_comparison file_name (export_to_csv mods_list stats) = Inr ([], snapshot) \<and>
    length snapshot = length mods_list \<and>
    (\<forall>m\<in>set mods_list. \<exists>r. map_of snapshot (key_of m) = Some r \<and>
       map_of (cells r) ''Author'' = Some (Some (author m)) \<and>
       map_of (cells r) ''Mod Name'' = Some (Some (name m)) \<and>
       map_of (cells r) ''Version'' = Some (Some (version m)) \<and>
       map_of (cells r) ''Enabled'' = Some (Some (enabled m)))"
proof -
  let ?snapshot = "map (\<lambda>m. (key_of m, row_of m)) mods_list"
  have "foldl add_row [] (map row_of mods_list) = [] @ ?snapshot"
    using assms(1,2,3) by (intro foldl_add_rows) auto
  with load_export [OF assms(5,4)]
  have loaded: "load_csv_for_comparison file_name (export_to_csv mods_list stats) = Inr ([], ?snapshot)"
    by simp
  have keys: "distinct (map fst ?snapshot)"
    using assms(2) by (simp add: comp_def)
  have entry: "\<exists>r. map_of ?snapshot (key_of m) = Some r \<and>
       map_of (cells r) ''Author'' = Some (Some (author m)) \<and>
       map_of (cells r) ''Mod Name'' = Some (Some (name m)) \<and>
       map_of (cells r) ''Version'' = Some (Some (version m)) \<and>
       map_of (cells r) ''Enabled'' = Some (Some (enabled m))"
    if m: "m \<in> set mods_list" for m
  proof -
    from m have "(key_of m, row_of m) \<in> set ?snapshot" by auto
    with keys have "map_of ?snapshot (key_of m) = Some (row_of m)"
      by (simp only: map_of_eq_Some_iff)
    moreover have "map_of (cells (row_of m)) ''Author'' = Some (Some (author m))"
      "map_of (cells (row_of m)) ''Mod Name'' = Some (Some (name m))"
      "map_of (cells (row_of m)) ''Version'' = Some (Some (version m))"
      "map_of (cells (row_of m)) ''Enabled'' = Some (Some (enabled m))"
      using assms(3) m by (simp_all add: row_of_cells un_no_CR)
    ultimately show ?thesis by blast
  qed
  from loaded entry show ?thesis
    by (intro exI [of _ ?snapshot]) simp
qed

theorem export_load_roundtrip_witness:
  "\<exists>snapshot. load_csv_for_comparison ''snap.csv''
      (export_to_csv
         [example_mod ''A'' ''X'' ''1.0.0'' ''Yes'', example_mod ''B'' ''Y'' ''2.0.0'' ''No'']
         (calculate_statistics
            [example_mod ''A'' ''X'' ''1.0.0'' ''Yes'', example_mod ''B'' ''Y'' ''2.0.0'' ''No'']
            ''Default'' ''2024-01-01 10:00:00'')) = Inr ([], snapshot) \<and>
     length snapshot = 2 \<and>
     (\<exists>r. map_of snapshot ''A:X'' = Some r \<and>
        map_of (cells r) ''Author'' = Some (Some ''A'') \<and>
        map_of (cells r) ''Mod Name'' = Some (Some ''X'') \<and>
        map_of (cells r) ''Version'' = Some (Some ''1.0.0'') \<and>
        map_of (cells r) ''Enabled'' = Some (Some ''Yes''))"
proof -
  let ?m1 = "example_mod ''A'' ''X'' ''1.0.0'' ''Yes''"
  let ?m2 = "example_mod ''B'' ''Y'' ''2.0.0'' ''No''"
  have h1: "\<forall>m\<in>set [?m1, ?m2]. author m \<noteq> [] \<and> name m \<noteq> []"
    by (simp add: example_mod_def)
  have h2: "distinct (map key_of [?m1, ?m2])"
    by (simp add: example_mod_def key_of_def)
  have h3: "\<forall>m\<in>set [?m1, ?m2]. CR \<notin> set (author m) \<and> CR \<notin> set (name m) \<and>
           CR \<notin> set (version m) \<and> CR \<notin> set (enabled m)"
    by (simp add: example_mod_def CR_def)
  have h4: "\<forall>m\<in>set [?m1, ?m2]. \<forall>f\<in>set (mod_row m). length f \<le> field_limit"
    by (rule example_fields) simp_all
  from export_load_roundtrip [OF h1 h2 h3 h4 example_preamble_distinct, of "''snap.csv''"]
  obtain snapshot where s: "load_csv_for_comparison ''snap.csv''
      (export_to_csv [?m1, ?m2]
         (calculate_statistics [?m1, ?m2] ''Default'' ''2024-01-01 10:00:00'')) = Inr ([], snapshot)"
    and len: "length snapshot = length [?m1, ?m2]"
    and entries: "\<forall>m\<in>set [?m1, ?m2]. \<exists>r. map_of snapshot (key_of m) = Some r \<and>
       map_of (cells r) ''Author'' = Some (Some (author m)) \<and>
       map_of (cells r) ''Mod Name'' = Some (Some (name m)) \<and>
       map_of (cells r) ''Version'' = Some (Some (version m)) \<and>
       map_of (cells r) ''Enabled'' = Some (Some (enabled m))"
    by (elim exE conjE)
  from entries have "\<exists>r. map_of snapshot (key_of ?m1) = Some r \<and>
       map_of (cells r) ''Author'' = Some (Some (author ?m1)) \<and>
       map_of (cells r) ''Mod Name'' = Some (Some (name ?m1)) \<and>
       map_of (cells r) ''Version'' = Some (Some (version ?m1)) \<and>
       map_of (cells r) ''Enabled'' = Some (Some (enabled ?m1))"
    by simp
  then have "\<exists>r. map_of snapshot ''A:X'' = Some r \<and>
        map_of (cells r) ''Author'' = Some (Some ''A'') \<and>
        map_of (cells r) ''Mod Name'' = Some (Some ''X'') \<and>
        map_of (cells r) ''Version'' = Some (Some ''1.0.0'') \<and>
        map_of (cells r) ''Enabled'' = Some (Some ''Yes'')"
    by (simp add: key_of_def example_mod_def)
  with s len show ?thesis
    by (intro exI [of _ snapshot]) simp
qed

text \<open>
  Claim C1 as stated fails: two records with the same author and name are written as two
  rows and read back as one entry, which holds the values of the second record.
\<close>

theorem export_load_duplicate_counterexample:
  "load_csv_for_comparison ''snap.csv''
      (export_to_csv
         [example_mod ''A'' ''X'' ''1.0.0'' ''Yes'', example_mod ''A'' ''X'' ''2.0.0'' ''No'']
         (calculate_statistics
            [example_mod ''A'' ''X'' ''1.0.0'' ''Yes'', example_mod ''A'' ''X'' ''2.0.0'' ''No'']
            ''Default'' ''2024-01-01 10:00:00'')) =
    Inr ([], [(''A:X'', row_of (example_mod ''A'' ''X'' ''2.0.0'' ''No''))])"
proof -
  let ?m1 = "example_mod ''A'' ''X'' ''1.0.0'' ''Yes''"
  let ?m2 = "example_mod ''A'' ''X'' ''2.0.0'' ''No''"
  have lim: "\<forall>m\<in>set [?m1, ?m2]. \<forall>f\<in>set (mod_row m). length f \<le> field_limit"
    by (rule example_fields) simp_all
  have k: "key_of ?m1 = ''A:X''" "key_of ?m2 = ''A:X''"
    by (simp_all add: key_of_def example_mod_def)
  have 1: "add_row acc (row_of ?m1) = dict_set ''A:X'' (row_of ?m1) acc" for acc
    using add_row_row_of [of ?m1 acc] by (simp add: k) (simp add: example_mod_def CR_def)
  have 2: "add_row acc (row_of ?m2) = dict_set ''A:X'' (row_of ?m2) acc" for acc
    using add_row_row_of [of ?m2 acc] by (simp add: k) (simp add: example_mod_def CR_def)
  have "foldl add_row [] (map row_of [?m1, ?m2]) = [(''A:X'', row_of ?m2)]"
    by (simp add: 1 2)
  with load_export [OF example_preamble_same lim, of "''snap.csv''"] show ?thesis
    by simp
qed

end
